theory Spec2Isabelle
  imports Main "HOL-Library.Word" "HOL-Library.Multiset" "HOL-Library.Signed_Division"
    "HOL-Library.Code_Target_Nat"
begin

section \<open>Worker pools of examples/01-basics/15-worker-pools/main.go\<close>

text \<open>
  The program starts goroutines that talk over two buffered channels, a \<open>sync.WaitGroup\<close>
  and two atomic counters. It is modelled as an interleaving of atomic steps: every
  goroutine has a program counter, a step of one goroutine is one channel operation,
  one WaitGroup operation or one atomic addition (with the local computation before it),
  and a schedule, a list of goroutine names, says who moves next. A goroutine that
  cannot move (an empty channel that is still open, a full channel, a WaitGroup that is
  not yet zero, a goroutine that has returned or was never started) is \<open>Blocked\<close>;
  a run-time panic, which ends the whole Go program, is \<open>Crash\<close>.

  The program synchronises through channels, the WaitGroup and \<open>sync/atomic\<close> only,
  so its runs are sequentially consistent and the interleavings are all its behaviours.
  No fairness is assumed of the scheduler: absence of deadlock and a bound on the
  number of moves are proved instead.

  A channel is its buffer (a list, oldest first) and a flag for \<open>close\<close>. A send
  appends when the buffer has room, blocks when it is full and panics when the channel
  is closed; a receive takes the head, blocks on an empty open channel, and a
  \<open>range\<close> ends on an empty closed one. \<open>make(chan Task, 0)\<close> is an unbuffered
  channel, on which the model lets a send block; a pool with \<open>numTasks = 0\<close> sends
  nothing, so no run meets that case.

  Go's \<open>int\<close> is taken as 64 bits wide (the 64-bit targets); \<open>uint64\<close> and \<open>int64\<close>
  are 64-bit words read with \<open>unat\<close> and \<open>sint\<close>. The loop counters and the two
  constants \<open>numWorkers\<close> and \<open>numTasks\<close> are natural numbers. Time is not
  modelled: \<open>time.Sleep\<close> is no step, a tick of the limiter can always arrive, and
  the elapsed time that a worker measures comes with the schedule.
\<close>

section \<open>The model\<close>

subsection \<open>Data\<close>

record Task =
  ID :: "64 word"
  Result :: "64 word"

record WorkerStats =
  tasksProcessed :: "64 word"
  totalTime :: "64 word"

datatype fault =
    DivideByZero
  | NonPositiveInterval
  | SendOnClosed
  | CloseOfClosed
  | NegativeCounter

datatype 's outcome = Blocked | Step 's | Crash fault

text \<open>
  Program counters of a worker goroutine. \<open>worker\<close> (lines 52-73) uses \<open>WRecv\<close>,
  \<open>WWork\<close>, \<open>WCount\<close>, \<open>WTime\<close>, \<open>WSend\<close>, \<open>WDefer\<close> and \<open>WExit\<close>;
  \<open>rateLimitedWorker\<close> (lines 84-110) starts at \<open>WTicker\<close> (line 88) and has
  \<open>WLimit\<close> (line 92) between the receive and the work.
\<close>

datatype wpc =
    WTicker
  | WRecv
  | WLimit Task
  | WWork Task
  | WCount Task
  | WTime Task
  | WSend Task
  | WDefer
  | WExit

text \<open>Which of the two worker functions a pool runs; the rate is the \<open>rate int\<close> argument.\<close>

datatype kind = Basic | RateLimited "64 word"

text \<open>
  The channels, the WaitGroup, the statistics and the workers started so far. The
  worker with index \<open>k\<close> is the \<open>k\<close>-th that was started.
\<close>

record chans =
  tasks :: "Task list"
  tasksClosed :: bool
  results :: "Task list"
  resultsClosed :: bool
  wg :: int
  stats :: WorkerStats
  workers :: "wpc list"

subsection \<open>The rate limiter's period (line 88)\<close>

text \<open>
  \<open>time.Second / time.Duration(rate)\<close> is a division of \<open>int64\<close> values: it panics
  when the divisor is zero and truncates towards zero otherwise. \<open>time.NewTicker\<close>
  panics on an interval that is not positive.
\<close>

definition second :: "64 word" where
  "second = 1000000000"

definition limiter_period :: "64 word \<Rightarrow> fault + 64 word" where
  "limiter_period rate =
     (if rate = 0 then Inl DivideByZero
      else let d = (word_of_int (sint second sdiv sint rate) :: 64 word)
           in if sint d \<le> 0 then Inl NonPositiveInterval else Inr d)"

subsection \<open>Elapsed time\<close>

text \<open>
  \<open>time.Since(start).Nanoseconds()\<close>: the clock readings of \<open>time.Now\<close> are
  monotonic, so the elapsed time is a natural number of nanoseconds, which the
  schedule supplies; a \<open>time.Duration\<close> saturates at the largest \<open>int64\<close>.
\<close>

definition elapsed :: "nat \<Rightarrow> 64 word" where
  "elapsed d = of_nat (min d (2 ^ 63 - 1))"

subsection \<open>One step of a worker\<close>

definition start_pc :: "kind \<Rightarrow> wpc" where
  "start_pc kd = (case kd of Basic \<Rightarrow> WRecv | RateLimited r \<Rightarrow> WTicker)"

definition set_pc :: "nat \<Rightarrow> wpc \<Rightarrow> ('a chans_scheme) \<Rightarrow> ('a chans_scheme)" where
  "set_pc k pc s = s\<lparr>workers := (workers s)[k := pc]\<rparr>"

text \<open>
  \<open>worker_step cap kd k d s\<close>: the worker with index \<open>k\<close> moves; \<open>cap\<close> is the
  capacity of the result channel, \<open>d\<close> the elapsed nanoseconds the clock shows should
  this step be the one that reads it.
  \<^item> \<open>WTicker\<close>: \<open>limiter := time.NewTicker(time.Second / time.Duration(rate))\<close>;
  \<^item> \<open>WRecv\<close>: \<open>for task := range tasks\<close>, which leaves the loop when the channel is
    closed and empty;
  \<^item> \<open>WLimit\<close>: \<open><-limiter.C\<close>, a tick arrives;
  \<^item> \<open>WWork\<close>: \<open>start := time.Now()\<close>, \<open>time.Sleep\<close>, \<open>task.Result = task.ID * 2\<close>;
  \<^item> \<open>WCount\<close>: \<open>atomic.AddUint64(&stats.tasksProcessed, 1)\<close>;
  \<^item> \<open>WTime\<close>: \<open>atomic.AddInt64(&stats.totalTime, time.Since(start).Nanoseconds())\<close>;
  \<^item> \<open>WSend\<close>: the log line and \<open>results <- task\<close>;
  \<^item> \<open>WDefer\<close>: the deferred \<open>limiter.Stop()\<close> and \<open>wg.Done()\<close>.
\<close>

definition worker_step ::
  "nat \<Rightarrow> kind \<Rightarrow> nat \<Rightarrow> nat \<Rightarrow> ('a chans_scheme) \<Rightarrow> ('a chans_scheme) outcome" where
  "worker_step cap kd k d s =
     (if k < length (workers s) then
        (case workers s ! k of
           WTicker \<Rightarrow>
             (case kd of
                Basic \<Rightarrow> Step (set_pc k WRecv s)
              | RateLimited r \<Rightarrow>
                  (case limiter_period r of
                     Inl f \<Rightarrow> Crash f
                   | Inr p \<Rightarrow> Step (set_pc k WRecv s)))
         | WRecv \<Rightarrow>
             (case tasks s of
                t # ts \<Rightarrow>
                  Step (set_pc k (case kd of Basic \<Rightarrow> WWork t | RateLimited r \<Rightarrow> WLimit t)
                          (s\<lparr>tasks := ts\<rparr>))
              | [] \<Rightarrow> if tasksClosed s then Step (set_pc k WDefer s) else Blocked)
         | WLimit t \<Rightarrow> Step (set_pc k (WWork t) s)
         | WWork t \<Rightarrow> Step (set_pc k (WCount (t\<lparr>Result := ID t * 2\<rparr>)) s)
         | WCount t \<Rightarrow>
             Step (set_pc k (WTime t)
                     (s\<lparr>stats := (stats s)\<lparr>tasksProcessed := tasksProcessed (stats s) + 1\<rparr>\<rparr>))
         | WTime t \<Rightarrow>
             Step (set_pc k (WSend t)
                     (s\<lparr>stats := (stats s)\<lparr>totalTime := totalTime (stats s) + elapsed d\<rparr>\<rparr>))
         | WSend t \<Rightarrow>
             (if resultsClosed s then Crash SendOnClosed
              else if length (results s) < cap
                then Step (set_pc k WRecv (s\<lparr>results := results s @ [t]\<rparr>))
                else Blocked)
         | WDefer \<Rightarrow>
             (if wg s - 1 < 0 then Crash NegativeCounter
              else Step (set_pc k WExit (s\<lparr>wg := wg s - 1\<rparr>)))
         | WExit \<Rightarrow> Blocked)
      else Blocked)"

subsection \<open>Pools 1 and 2: \<open>main\<close>, lines 119-150 and 162-190\<close>

text \<open>
  The two pools are the same program but for the worker function. \<open>main\<close> starts the
  workers (\<open>MFor\<close>: the loop test and \<open>wg.Add(1)\<close>; \<open>MGo\<close>: the \<open>go\<close> statement),
  starts the goroutine that sends the tasks (\<open>MSender\<close>) and the one that waits and
  closes the results (\<open>MCloser\<close>), and ranges over the results (\<open>MRange\<close>), logging
  each; \<open>collected\<close> is what it has logged, in order.
\<close>

datatype mpc = MFor nat | MGo nat | MSender | MCloser | MRange | MDone

datatype spc = SSend nat | SClose | SDone

datatype cpc = CWait | CClose | CDone

record pool = chans +
  mainpc :: mpc
  sender :: "spc option"
  closer :: "cpc option"
  collected :: "Task list"

record config =
  numWorkers :: nat
  numTasks :: nat
  worker_kind :: kind

datatype pid = Main | Sender | Closer | Worker nat

definition main_step :: "config \<Rightarrow> pool \<Rightarrow> pool outcome" where
  "main_step cfg s =
     (case mainpc s of
        MFor i \<Rightarrow>
          (if i \<le> numWorkers cfg then Step (s\<lparr>wg := wg s + 1, mainpc := MGo i\<rparr>)
           else Step (s\<lparr>mainpc := MSender\<rparr>))
      | MGo i \<Rightarrow>
          Step (s\<lparr>workers := workers s @ [start_pc (worker_kind cfg)], mainpc := MFor (i + 1)\<rparr>)
      | MSender \<Rightarrow> Step (s\<lparr>sender := Some (SSend 1), mainpc := MCloser\<rparr>)
      | MCloser \<Rightarrow> Step (s\<lparr>closer := Some CWait, mainpc := MRange\<rparr>)
      | MRange \<Rightarrow>
          (case results s of
             r # rs \<Rightarrow> Step (s\<lparr>results := rs, collected := collected s @ [r]\<rparr>)
           | [] \<Rightarrow> if resultsClosed s then Step (s\<lparr>mainpc := MDone\<rparr>) else Blocked)
      | MDone \<Rightarrow> Blocked)"

text \<open>Lines 134-139: \<open>for i := 1; i <= numTasks; i++ { tasks <- Task{ID: i} }; close(tasks)\<close>.\<close>

definition sender_step :: "config \<Rightarrow> pool \<Rightarrow> pool outcome" where
  "sender_step cfg s =
     (case sender s of
        None \<Rightarrow> Blocked
      | Some (SSend i) \<Rightarrow>
          (if i \<le> numTasks cfg then
             (if tasksClosed s then Crash SendOnClosed
              else if length (tasks s) < numTasks cfg
                then Step (s\<lparr>tasks := tasks s @ [\<lparr>ID = of_nat i, Result = 0\<rparr>],
                             sender := Some (SSend (i + 1))\<rparr>)
                else Blocked)
           else Step (s\<lparr>sender := Some SClose\<rparr>))
      | Some SClose \<Rightarrow>
          (if tasksClosed s then Crash CloseOfClosed
           else Step (s\<lparr>tasksClosed := True, sender := Some SDone\<rparr>))
      | Some SDone \<Rightarrow> Blocked)"

text \<open>Lines 142-145: \<open>wg.Wait(); close(results)\<close>.\<close>

definition closer_step :: "pool \<Rightarrow> pool outcome" where
  "closer_step s =
     (case closer s of
        None \<Rightarrow> Blocked
      | Some CWait \<Rightarrow> if wg s = 0 then Step (s\<lparr>closer := Some CClose\<rparr>) else Blocked
      | Some CClose \<Rightarrow>
          (if resultsClosed s then Crash CloseOfClosed
           else Step (s\<lparr>resultsClosed := True, closer := Some CDone\<rparr>))
      | Some CDone \<Rightarrow> Blocked)"

definition pool_step :: "config \<Rightarrow> pid \<Rightarrow> nat \<Rightarrow> pool \<Rightarrow> pool outcome" where
  "pool_step cfg p d s =
     (case p of
        Main \<Rightarrow> main_step cfg s
      | Sender \<Rightarrow> sender_step cfg s
      | Closer \<Rightarrow> closer_step s
      | Worker k \<Rightarrow> worker_step (numTasks cfg) (worker_kind cfg) k d s)"

text \<open>
  A schedule is a list of events: who moves, and the elapsed time the clock shows.
  A goroutine that is scheduled while blocked just loses its turn.
\<close>

fun run_pool :: "config \<Rightarrow> (pid \<times> nat) list \<Rightarrow> pool \<Rightarrow> fault + pool" where
  "run_pool cfg [] s = Inr s"
| "run_pool cfg (e # es) s =
     (case pool_step cfg (fst e) (snd e) s of
        Blocked \<Rightarrow> run_pool cfg es s
      | Step s' \<Rightarrow> run_pool cfg es s'
      | Crash f \<Rightarrow> Inl f)"

text \<open>The number of events of a schedule at which the goroutine did move.\<close>

fun moves :: "config \<Rightarrow> (pid \<times> nat) list \<Rightarrow> pool \<Rightarrow> nat" where
  "moves cfg [] s = 0"
| "moves cfg (e # es) s =
     (case pool_step cfg (fst e) (snd e) s of
        Blocked \<Rightarrow> moves cfg es s
      | Step s' \<Rightarrow> Suc (moves cfg es s')
      | Crash f \<Rightarrow> 0)"

text \<open>
  The state at line 119 (or 162): fresh channels and WaitGroup, and the statistics
  object as \<open>main\<close> has it at that point.
\<close>

definition pool_init :: "WorkerStats \<Rightarrow> pool" where
  "pool_init st =
     \<lparr>tasks = [], tasksClosed = False, results = [], resultsClosed = False, wg = 0,
      stats = st, workers = [], mainpc = MFor 1, sender = None, closer = None,
      collected = []\<rparr>"

definition fresh_stats :: WorkerStats where
  "fresh_stats = \<lparr>tasksProcessed = 0, totalTime = 0\<rparr>"

subsection \<open>Pool 3, the dynamic pool: \<open>main\<close>, lines 197-226\<close>

text \<open>
  \<open>main\<close> starts two workers (\<open>DFor\<close>, \<open>DGo\<close>), starts the goroutine that checks the
  load once (\<open>DScaler\<close>), sends five tasks itself (\<open>DSend\<close>), closes the task channel
  (\<open>DClose\<close>), waits for the workers (\<open>DWait\<close>), closes the result channel
  (\<open>DCloseResults\<close>) and ranges over the results (\<open>DRange\<close>). The checking goroutine
  reads \<open>len(dynamicTasks)\<close> (\<open>ScCheck\<close>) and, on more than five, adds one to the
  WaitGroup (\<open>ScAdd\<close>) and starts a third worker (\<open>ScGo\<close>).
\<close>

datatype dpc =
  DFor nat | DGo nat | DScaler | DSend nat | DClose | DWait | DCloseResults | DRange | DDone

datatype scpc = ScCheck | ScAdd | ScGo | ScDone

record dynpool = chans +
  dmainpc :: dpc
  scaler :: "scpc option"
  dcollected :: "Task list"

datatype dpid = DMain | DScale | DWorker nat

text \<open>Line 202; line 120 (the capacity of both channels); line 217; line 210.\<close>

definition initialWorkers :: nat where
  "initialWorkers = 2"

definition dyn_capacity :: nat where
  "dyn_capacity = 10"

definition dyn_tasks :: nat where
  "dyn_tasks = 5"

definition high_load :: nat where
  "high_load = 5"

definition dmain_step :: "dynpool \<Rightarrow> dynpool outcome" where
  "dmain_step s =
     (case dmainpc s of
        DFor i \<Rightarrow>
          (if i \<le> initialWorkers then Step (s\<lparr>wg := wg s + 1, dmainpc := DGo i\<rparr>)
           else Step (s\<lparr>dmainpc := DScaler\<rparr>))
      | DGo i \<Rightarrow> Step (s\<lparr>workers := workers s @ [WRecv], dmainpc := DFor (i + 1)\<rparr>)
      | DScaler \<Rightarrow> Step (s\<lparr>scaler := Some ScCheck, dmainpc := DSend 1\<rparr>)
      | DSend i \<Rightarrow>
          (if i \<le> dyn_tasks then
             (if tasksClosed s then Crash SendOnClosed
              else if length (tasks s) < dyn_capacity
                then Step (s\<lparr>tasks := tasks s @ [\<lparr>ID = of_nat i, Result = 0\<rparr>],
                             dmainpc := DSend (i + 1)\<rparr>)
                else Blocked)
           else Step (s\<lparr>dmainpc := DClose\<rparr>))
      | DClose \<Rightarrow>
          (if tasksClosed s then Crash CloseOfClosed
           else Step (s\<lparr>tasksClosed := True, dmainpc := DWait\<rparr>))
      | DWait \<Rightarrow> if wg s = 0 then Step (s\<lparr>dmainpc := DCloseResults\<rparr>) else Blocked
      | DCloseResults \<Rightarrow>
          (if resultsClosed s then Crash CloseOfClosed
           else Step (s\<lparr>resultsClosed := True, dmainpc := DRange\<rparr>))
      | DRange \<Rightarrow>
          (case results s of
             r # rs \<Rightarrow> Step (s\<lparr>results := rs, dcollected := dcollected s @ [r]\<rparr>)
           | [] \<Rightarrow> if resultsClosed s then Step (s\<lparr>dmainpc := DDone\<rparr>) else Blocked)
      | DDone \<Rightarrow> Blocked)"

text \<open>Lines 209-214.\<close>

definition scaler_step :: "dynpool \<Rightarrow> dynpool outcome" where
  "scaler_step s =
     (case scaler s of
        None \<Rightarrow> Blocked
      | Some ScCheck \<Rightarrow>
          (if length (tasks s) > high_load then Step (s\<lparr>scaler := Some ScAdd\<rparr>)
           else Step (s\<lparr>scaler := Some ScDone\<rparr>))
      | Some ScAdd \<Rightarrow> Step (s\<lparr>wg := wg s + 1, scaler := Some ScGo\<rparr>)
      | Some ScGo \<Rightarrow> Step (s\<lparr>workers := workers s @ [WRecv], scaler := Some ScDone\<rparr>)
      | Some ScDone \<Rightarrow> Blocked)"

definition dyn_step :: "dpid \<Rightarrow> nat \<Rightarrow> dynpool \<Rightarrow> dynpool outcome" where
  "dyn_step p d s =
     (case p of
        DMain \<Rightarrow> dmain_step s
      | DScale \<Rightarrow> scaler_step s
      | DWorker k \<Rightarrow> worker_step dyn_capacity Basic k d s)"

fun run_dyn :: "(dpid \<times> nat) list \<Rightarrow> dynpool \<Rightarrow> fault + dynpool" where
  "run_dyn [] s = Inr s"
| "run_dyn (e # es) s =
     (case dyn_step (fst e) (snd e) s of
        Blocked \<Rightarrow> run_dyn es s
      | Step s' \<Rightarrow> run_dyn es s'
      | Crash f \<Rightarrow> Inl f)"

definition dyn_init :: "WorkerStats \<Rightarrow> dynpool" where
  "dyn_init st =
     \<lparr>tasks = [], tasksClosed = False, results = [], resultsClosed = False, wg = 0,
      stats = st, workers = [], dmainpc = DFor 1, scaler = None, dcollected = []\<rparr>"

section \<open>Invariants\<close>

subsection \<open>Sums over the workers\<close>

text \<open>
  A step of worker \<open>k\<close> changes one entry of the list of workers: a sum over the list
  splits into that worker's share and the rest, which the step leaves alone.
\<close>

lemma agg_split:
  fixes f :: "'a \<Rightarrow> 'b::comm_monoid_add"
  shows "k < length xs \<Longrightarrow>
    \<exists>D. sum_list (map f xs) = f (xs ! k) + D \<and> (\<forall>y. sum_list (map f (xs[k := y])) = f y + D)"
proof (induction xs arbitrary: k)
  case Nil
  then show ?case by simp
next
  case (Cons x xs)
  show ?case
  proof (cases k)
    case 0
    then show ?thesis by auto
  next
    case (Suc j)
    with Cons.prems have "j < length xs" by simp
    from Cons.IH [OF this] obtain D where
      D: "sum_list (map f xs) = f (xs ! j) + D" "\<And>y. sum_list (map f (xs[j := y])) = f y + D"
      by blast
    have "sum_list (map f (x # xs)) = f ((x # xs) ! k) + (f x + D)"
      using Suc D(1) by (simp add: add.left_commute)
    moreover have "\<forall>y. sum_list (map f ((x # xs)[k := y])) = f y + (f x + D)"
      using Suc D(2) by (simp add: add.left_commute)
    ultimately show ?thesis by blast
  qed
qed

subsection \<open>The invariant of pools 1 and 2\<close>

text \<open>
  What a worker contributes: \<open>live\<close> to the WaitGroup until it has returned,
  \<open>held\<close> the id of the task in its hands, \<open>counted\<close> one once it has added to
  \<open>tasksProcessed\<close> and not yet sent its task on; \<open>proc_ok\<close> says that a task past
  the doubling is doubled.
\<close>

definition live :: "wpc \<Rightarrow> nat" where
  "live pc = (if pc = WExit then 0 else 1)"

definition held :: "wpc \<Rightarrow> 64 word multiset" where
  "held pc =
     (case pc of
        WLimit t \<Rightarrow> {#ID t#} | WWork t \<Rightarrow> {#ID t#} | WCount t \<Rightarrow> {#ID t#}
      | WTime t \<Rightarrow> {#ID t#} | WSend t \<Rightarrow> {#ID t#} | _ \<Rightarrow> {#})"

definition counted :: "wpc \<Rightarrow> nat" where
  "counted pc = (case pc of WTime t \<Rightarrow> 1 | WSend t \<Rightarrow> 1 | _ \<Rightarrow> 0)"

definition doubled :: "Task \<Rightarrow> bool" where
  "doubled t = (Result t = ID t * 2)"

definition proc_ok :: "wpc \<Rightarrow> bool" where
  "proc_ok pc = (case pc of WCount t \<Rightarrow> doubled t | WTime t \<Rightarrow> doubled t | WSend t \<Rightarrow> doubled t | _ \<Rightarrow> True)"

definition all_exited :: "wpc list \<Rightarrow> bool" where
  "all_exited ws = list_all (\<lambda>pc. pc = WExit) ws"

definition some_left :: "wpc list \<Rightarrow> bool" where
  "some_left ws = list_ex (\<lambda>pc. pc = WDefer \<or> pc = WExit) ws"

text \<open>The number of tasks sent so far, and their ids.\<close>

definition sent :: "config \<Rightarrow> pool \<Rightarrow> nat" where
  "sent cfg s = (case sender s of None \<Rightarrow> 0 | Some (SSend i) \<Rightarrow> i - 1 | Some _ \<Rightarrow> numTasks cfg)"

definition task_ids :: "nat \<Rightarrow> 64 word list" where
  "task_ids n = map of_nat [1..<Suc n]"

lemma task_ids_0: "task_ids 0 = []"
  by (simp add: task_ids_def)

lemma task_ids_Suc: "task_ids (Suc n) = task_ids n @ [of_nat (Suc n)]"
  by (simp add: task_ids_def)

text \<open>
  The invariant, in parts:
  \<^item> \<open>inv_main\<close>: where \<open>main\<close> is fixes how many workers have been started and
    whether the sending and the closing goroutine exist; past its loop the result
    channel is closed and empty;
  \<^item> \<open>inv_wg\<close>: the WaitGroup counts the workers that have not returned, and one
    more between \<open>wg.Add(1)\<close> and the \<open>go\<close> statement;
  \<^item> \<open>inv_sender\<close>: the task channel is closed by the sender's last step only;
  \<^item> \<open>inv_ids\<close>: the ids in the task channel, in the workers' hands, in the result
    channel and collected are, as a multiset, the ids sent so far;
  \<^item> \<open>inv_doubled\<close>: what is past the doubling is doubled;
  \<^item> \<open>inv_count\<close>: \<open>tasksProcessed\<close> has grown by the number of tasks past the
    atomic addition;
  \<^item> \<open>inv_drained\<close>: a worker leaves its loop only when the task channel is closed
    and empty;
  \<^item> \<open>inv_closer\<close>: the result channel is closed by the closing goroutine's last
    step only, and that goroutine is past \<open>wg.Wait()\<close> only when every worker has
    returned.
\<close>

definition inv_main :: "config \<Rightarrow> pool \<Rightarrow> bool" where
  "inv_main cfg s =
     (case mainpc s of
        MFor i \<Rightarrow> 1 \<le> i \<and> i \<le> numWorkers cfg + 1 \<and> length (workers s) = i - 1
                  \<and> sender s = None \<and> closer s = None
      | MGo i \<Rightarrow> 1 \<le> i \<and> i \<le> numWorkers cfg \<and> length (workers s) = i - 1
                  \<and> sender s = None \<and> closer s = None
      | MSender \<Rightarrow> length (workers s) = numWorkers cfg \<and> sender s = None \<and> closer s = None
      | MCloser \<Rightarrow> length (workers s) = numWorkers cfg \<and> sender s \<noteq> None \<and> closer s = None
      | MRange \<Rightarrow> length (workers s) = numWorkers cfg \<and> sender s \<noteq> None \<and> closer s \<noteq> None
      | MDone \<Rightarrow> length (workers s) = numWorkers cfg \<and> sender s \<noteq> None \<and> closer s \<noteq> None
                  \<and> results s = [] \<and> resultsClosed s)"

definition inv_wg :: "pool \<Rightarrow> bool" where
  "inv_wg s =
     (wg s = int (sum_list (map live (workers s))) + (case mainpc s of MGo i \<Rightarrow> 1 | _ \<Rightarrow> 0))"

definition inv_sender :: "config \<Rightarrow> pool \<Rightarrow> bool" where
  "inv_sender cfg s =
     (case sender s of
        None \<Rightarrow> \<not> tasksClosed s
      | Some (SSend i) \<Rightarrow> 1 \<le> i \<and> i \<le> numTasks cfg + 1 \<and> \<not> tasksClosed s
      | Some SClose \<Rightarrow> \<not> tasksClosed s
      | Some SDone \<Rightarrow> tasksClosed s)"

definition inv_ids :: "config \<Rightarrow> pool \<Rightarrow> bool" where
  "inv_ids cfg s =
     (mset (map ID (tasks s)) + sum_list (map held (workers s)) + mset (map ID (results s))
        + mset (map ID (collected s))
      = mset (task_ids (sent cfg s)))"

definition inv_doubled :: "pool \<Rightarrow> bool" where
  "inv_doubled s =
     (list_all proc_ok (workers s) \<and> list_all doubled (results s) \<and> list_all doubled (collected s))"

definition inv_count :: "WorkerStats \<Rightarrow> pool \<Rightarrow> bool" where
  "inv_count st s =
     (tasksProcessed (stats s) =
        tasksProcessed st
          + of_nat (sum_list (map counted (workers s)) + length (results s) + length (collected s)))"

definition inv_drained :: "pool \<Rightarrow> bool" where
  "inv_drained s = (some_left (workers s) \<longrightarrow> tasks s = [] \<and> tasksClosed s)"

definition inv_closer :: "pool \<Rightarrow> bool" where
  "inv_closer s =
     (case closer s of
        Some CClose \<Rightarrow> all_exited (workers s) \<and> \<not> resultsClosed s
      | Some CDone \<Rightarrow> all_exited (workers s) \<and> resultsClosed s
      | _ \<Rightarrow> \<not> resultsClosed s)"

definition pool_inv :: "config \<Rightarrow> WorkerStats \<Rightarrow> pool \<Rightarrow> bool" where
  "pool_inv cfg st s =
     (inv_main cfg s \<and> inv_wg s \<and> inv_sender cfg s \<and> inv_ids cfg s \<and> inv_doubled s
      \<and> inv_count st s \<and> inv_drained s \<and> inv_closer s)"

lemma pool_inv_init: "pool_inv cfg st (pool_init st)"
  by (simp add: pool_inv_def pool_init_def inv_main_def inv_wg_def inv_sender_def inv_ids_def
      inv_doubled_def inv_count_def inv_drained_def inv_closer_def sent_def some_left_def
      task_ids_0)

subsection \<open>Every step keeps the invariant\<close>

lemma worker_step_idx: "worker_step cap kd k d s = Step s' \<Longrightarrow> k < length (workers s)"
  by (simp add: worker_step_def split: if_splits)

lemma worker_step_rest:
  fixes s :: pool
  assumes "worker_step cap kd k d s = Step s'"
  shows "mainpc s' = mainpc s \<and> sender s' = sender s \<and> closer s' = closer s
    \<and> collected s' = collected s \<and> length (workers s') = length (workers s)
    \<and> tasksClosed s' = tasksClosed s \<and> resultsClosed s' = resultsClosed s"
  using assms
  by (auto simp: worker_step_def set_pc_def split: if_splits wpc.splits kind.splits sum.splits list.splits)

lemma list_all_update: "list_all P xs \<Longrightarrow> P y \<Longrightarrow> list_all P (xs[k := y])"
  by (metis list_all_iff insertE set_update_subset_insert subsetD)

lemma worker_inv_main:
  assumes "inv_main cfg s" "worker_step cap kd k d s = Step s'" "inv_closer s"
  shows "inv_main cfg s'"
proof -
  have k: "k < length (workers s)" using assms(2) by (rule worker_step_idx)
  have ne: "workers s ! k \<noteq> WExit"
    using assms(2) k by (auto simp: worker_step_def)
  have nd: "mainpc s \<noteq> MDone"
  proof
    assume "mainpc s = MDone"
    with assms(1) have "resultsClosed s" by (simp add: inv_main_def)
    with assms(3) have "all_exited (workers s)"
      by (auto simp: inv_closer_def split: option.splits cpc.splits)
    with k ne show False by (auto simp: all_exited_def list_all_length)
  qed
  show ?thesis
    using assms(1) worker_step_rest [OF assms(2)] nd
    by (auto simp: inv_main_def split: mpc.splits)
qed

lemma worker_inv_wg:
  assumes "inv_wg s" "worker_step cap kd k d s = Step s'"
  shows "inv_wg s'"
proof -
  have k: "k < length (workers s)" using assms(2) by (rule worker_step_idx)
  from agg_split [OF k, of live] obtain D where
    D: "sum_list (map live (workers s)) = live (workers s ! k) + D"
       "\<And>y. sum_list (map live ((workers s)[k := y])) = live y + D"
    by blast
  show ?thesis
    using assms k D
    by (auto simp: inv_wg_def worker_step_def set_pc_def live_def
        split: if_splits wpc.splits kind.splits sum.splits list.splits)
qed

lemma worker_inv_sender:
  assumes "inv_sender cfg s" "worker_step cap kd k d s = Step s'"
  shows "inv_sender cfg s'"
  using assms(1) worker_step_rest [OF assms(2)]
  by (auto simp: inv_sender_def split: option.splits spc.splits)

lemma worker_sent:
  fixes s :: pool
  assumes "worker_step cap kd k d s = Step s'"
  shows "sent cfg s' = sent cfg s"
  using worker_step_rest [OF assms] by (simp add: sent_def)

lemma worker_inv_ids:
  assumes "inv_ids cfg s" "worker_step cap kd k d s = Step s'"
  shows "inv_ids cfg s'"
proof -
  have k: "k < length (workers s)" using assms(2) by (rule worker_step_idx)
  from agg_split [OF k, of held] obtain D where
    D: "sum_list (map held (workers s)) = held (workers s ! k) + D"
       "\<And>y. sum_list (map held ((workers s)[k := y])) = held y + D"
    by blast
  have "mset (map ID (tasks s')) + sum_list (map held (workers s')) + mset (map ID (results s'))
      + mset (map ID (collected s'))
    = mset (map ID (tasks s)) + sum_list (map held (workers s)) + mset (map ID (results s))
      + mset (map ID (collected s))"
    using assms(2) k D
    by (auto simp: worker_step_def set_pc_def held_def
        split: if_splits wpc.splits kind.splits sum.splits list.splits)
  then show ?thesis
    using assms(1) worker_sent [OF assms(2), of cfg] by (simp add: inv_ids_def)
qed

lemma worker_inv_doubled:
  assumes "inv_doubled s" "worker_step cap kd k d s = Step s'"
  shows "inv_doubled s'"
proof -
  have k: "k < length (workers s)" using assms(2) by (rule worker_step_idx)
  have ok: "proc_ok (workers s ! k)"
    using assms(1) k by (simp add: inv_doubled_def list_all_length)
  show ?thesis
    using assms k ok
    by (auto simp: inv_doubled_def worker_step_def set_pc_def proc_ok_def doubled_def
        intro!: list_all_update
        split: if_splits wpc.splits kind.splits sum.splits list.splits)
qed

lemma worker_inv_count:
  assumes "inv_count st s" "worker_step cap kd k d s = Step s'"
  shows "inv_count st s'"
proof -
  have k: "k < length (workers s)" using assms(2) by (rule worker_step_idx)
  from agg_split [OF k, of counted] obtain D where
    D: "sum_list (map counted (workers s)) = counted (workers s ! k) + D"
       "\<And>y. sum_list (map counted ((workers s)[k := y])) = counted y + D"
    by blast
  show ?thesis
    using assms k D
    by (auto simp: inv_count_def worker_step_def set_pc_def counted_def
        split: if_splits wpc.splits kind.splits sum.splits list.splits)
qed

lemma some_left_update:
  "some_left (ws[k := pc]) \<Longrightarrow> pc \<noteq> WDefer \<Longrightarrow> pc \<noteq> WExit \<Longrightarrow> some_left ws"
  unfolding some_left_def list_ex_iff
  by (metis insertE set_update_subset_insert subsetD)

lemma worker_inv_drained:
  assumes "inv_drained s" "worker_step cap kd k d s = Step s'"
  shows "inv_drained s'"
proof -
  have k: "k < length (workers s)" using assms(2) by (rule worker_step_idx)
  have here: "workers s ! k = WDefer \<Longrightarrow> some_left (workers s)"
    using nth_mem [OF k] by (auto simp: some_left_def list_ex_iff)
  show ?thesis
    using assms k here
    by (auto simp: inv_drained_def worker_step_def set_pc_def
        dest: some_left_update
        split: if_splits wpc.splits kind.splits sum.splits list.splits)
qed

lemma worker_inv_closer:
  assumes "inv_closer s" "worker_step cap kd k d s = Step s'"
  shows "inv_closer s'"
proof -
  have k: "k < length (workers s)" using assms(2) by (rule worker_step_idx)
  have ne: "workers s ! k \<noteq> WExit"
    using assms(2) k by (auto simp: worker_step_def)
  have na: "\<not> all_exited (workers s)"
    using k ne by (auto simp: all_exited_def list_all_length)
  show ?thesis
    using assms(1) na worker_step_rest [OF assms(2)]
    by (auto simp: inv_closer_def split: option.splits cpc.splits)
qed

lemma worker_pool_inv:
  assumes "pool_inv cfg st s" "worker_step cap kd k d s = Step s'"
  shows "pool_inv cfg st s'"
  using assms unfolding pool_inv_def
  by (blast intro: worker_inv_main worker_inv_wg worker_inv_sender worker_inv_ids
      worker_inv_doubled worker_inv_count worker_inv_drained worker_inv_closer)

lemma live_sum_zero: "sum_list (map live ws) = 0 \<Longrightarrow> all_exited ws"
  by (induction ws) (auto simp: all_exited_def live_def split: if_splits)

lemma main_pool_inv:
  assumes "pool_inv cfg st s" "main_step cfg s = Step s'"
  shows "pool_inv cfg st s'"
proof -
  have a: "inv_main cfg s'"
    using assms
    by (auto simp: pool_inv_def inv_main_def main_step_def inv_closer_def
        split: mpc.splits if_splits list.splits option.splits cpc.splits)
  have b: "inv_wg s'"
    using assms
    by (auto simp: pool_inv_def inv_wg_def main_step_def live_def start_pc_def
        split: mpc.splits if_splits list.splits kind.splits)
  have c: "inv_sender cfg s'"
    using assms
    by (auto simp: pool_inv_def inv_sender_def inv_main_def main_step_def
        split: mpc.splits if_splits list.splits option.splits spc.splits)
  have d: "inv_ids cfg s'"
    using assms
    by (auto simp: pool_inv_def inv_ids_def inv_main_def main_step_def sent_def held_def start_pc_def
        split: mpc.splits if_splits list.splits kind.splits)
  have e: "inv_doubled s'"
    using assms
    by (auto simp: pool_inv_def inv_doubled_def main_step_def proc_ok_def start_pc_def
        split: mpc.splits if_splits list.splits kind.splits)
  have f: "inv_count st s'"
    using assms
    by (auto simp: pool_inv_def inv_count_def main_step_def counted_def start_pc_def
        split: mpc.splits if_splits list.splits kind.splits)
  have g: "inv_drained s'"
    using assms
    by (auto simp: pool_inv_def inv_drained_def main_step_def some_left_def start_pc_def
        split: mpc.splits if_splits list.splits kind.splits)
  have h: "inv_closer s'"
    using assms
    by (auto simp: pool_inv_def inv_closer_def inv_main_def main_step_def
        split: mpc.splits if_splits list.splits option.splits cpc.splits)
  from a b c d e f g h show ?thesis by (simp add: pool_inv_def)
qed

lemma sender_pool_inv:
  assumes "pool_inv cfg st s" "sender_step cfg s = Step s'"
  shows "pool_inv cfg st s'"
proof -
  have a: "inv_main cfg s'"
    using assms
    by (auto simp: pool_inv_def inv_main_def sender_step_def
        split: mpc.splits if_splits option.splits spc.splits)
  have b: "inv_wg s'"
    using assms
    by (auto simp: pool_inv_def inv_wg_def sender_step_def
        split: if_splits option.splits spc.splits)
  have c: "inv_sender cfg s'"
    using assms
    by (auto simp: pool_inv_def inv_sender_def sender_step_def
        split: if_splits option.splits spc.splits)
  have d: "inv_ids cfg s'"
  proof (cases "sender s")
    case None
    with assms show ?thesis by (simp add: sender_step_def)
  next
    case (Some pc)
    show ?thesis
    proof (cases pc)
      case (SSend i)
      with Some assms(1) obtain j where j: "i = Suc j" "j \<le> numTasks cfg"
        by (cases i) (auto simp: pool_inv_def inv_sender_def)
      have last: "\<not> Suc j \<le> numTasks cfg \<Longrightarrow> j = numTasks cfg"
        using j(2) by arith
      show ?thesis
        using assms Some SSend j(1) last
        by (auto simp: pool_inv_def inv_ids_def sender_step_def sent_def task_ids_Suc
            split: if_splits)
    next
      case SClose
      with Some assms show ?thesis
        by (auto simp: pool_inv_def inv_ids_def sender_step_def sent_def split: if_splits)
    next
      case SDone
      with Some assms show ?thesis by (simp add: sender_step_def)
    qed
  qed
  have e: "inv_doubled s'"
    using assms
    by (auto simp: pool_inv_def inv_doubled_def sender_step_def
        split: if_splits option.splits spc.splits)
  have f: "inv_count st s'"
    using assms
    by (auto simp: pool_inv_def inv_count_def sender_step_def
        split: if_splits option.splits spc.splits)
  have g: "inv_drained s'"
    using assms
    by (auto simp: pool_inv_def inv_drained_def inv_sender_def sender_step_def
        split: if_splits option.splits spc.splits)
  have h: "inv_closer s'"
    using assms
    by (auto simp: pool_inv_def inv_closer_def sender_step_def
        split: if_splits option.splits spc.splits cpc.splits)
  from a b c d e f g h show ?thesis by (simp add: pool_inv_def)
qed

lemma closer_pool_inv:
  assumes "pool_inv cfg st s" "closer_step s = Step s'"
  shows "pool_inv cfg st s'"
proof -
  have a: "inv_main cfg s'"
    using assms
    by (auto simp: pool_inv_def inv_main_def closer_step_def inv_closer_def
        split: mpc.splits if_splits option.splits cpc.splits)
  have b: "inv_wg s'"
    using assms
    by (auto simp: pool_inv_def inv_wg_def closer_step_def
        split: if_splits option.splits cpc.splits)
  have c: "inv_sender cfg s'"
    using assms
    by (auto simp: pool_inv_def inv_sender_def closer_step_def
        split: if_splits option.splits spc.splits cpc.splits)
  have d: "inv_ids cfg s'"
    using assms
    by (auto simp: pool_inv_def inv_ids_def closer_step_def sent_def
        split: if_splits option.splits cpc.splits)
  have e: "inv_doubled s'"
    using assms
    by (auto simp: pool_inv_def inv_doubled_def closer_step_def
        split: if_splits option.splits cpc.splits)
  have f: "inv_count st s'"
    using assms
    by (auto simp: pool_inv_def inv_count_def closer_step_def
        split: if_splits option.splits cpc.splits)
  have g: "inv_drained s'"
    using assms
    by (auto simp: pool_inv_def inv_drained_def closer_step_def
        split: if_splits option.splits cpc.splits)
  have h: "inv_closer s'"
    using assms
    by (auto simp: pool_inv_def inv_closer_def inv_wg_def inv_main_def closer_step_def
        intro: live_sum_zero
        split: if_splits option.splits cpc.splits mpc.splits)
  from a b c d e f g h show ?thesis by (simp add: pool_inv_def)
qed

lemma pool_step_inv:
  assumes "pool_inv cfg st s" "pool_step cfg p d s = Step s'"
  shows "pool_inv cfg st s'"
  using assms
  by (cases p) (auto simp: pool_step_def intro: main_pool_inv sender_pool_inv closer_pool_inv
      worker_pool_inv)

text \<open>Line 167: at two operations per second the ticker's period is half a second.\<close>

lemma limiter_period_two: "limiter_period 2 = Inr 500000000"
  by (simp add: limiter_period_def second_def signed_divide_int_def)

lemma sint_small:
  assumes "0 \<le> x" "x < 2 ^ 63"
  shows "sint (word_of_int x :: 64 word) = x"
  using assms by (simp add: sint_sbintrunc' signed_take_bit_int_eq_self)

lemma sint_elapsed: "sint (elapsed d) = int (min d (2 ^ 63 - 1))"
proof -
  have "int (min d (2 ^ 63 - 1)) < 2 ^ 63" by simp
  then have "sint (word_of_int (int (min d (2 ^ 63 - 1))) :: 64 word) = int (min d (2 ^ 63 - 1))"
    by (intro sint_small) simp_all
  then show ?thesis by (simp add: elapsed_def)
qed

lemma limiter_period_ok:
  assumes "0 < sint r" "sint r \<le> 1000000000"
  shows "\<exists>p. limiter_period r = Inr p"
proof -
  have r0: "r \<noteq> 0" using assms(1) by auto
  have q: "sint second sdiv sint r = 1000000000 div sint r"
    using assms(1) by (simp add: second_def signed_divide_int_def sgn_if)
  have lo: "0 < (1000000000::int) div sint r"
    using assms by (simp add: pos_imp_zdiv_pos_iff) 
  have hi: "(1000000000::int) div sint r \<le> 1000000000"
    by (rule int_div_le_self) simp
  have "sint (word_of_int (1000000000 div sint r) :: 64 word) = 1000000000 div sint r"
    using lo hi by (intro sint_small) auto
  then show ?thesis
    using r0 q lo by (simp add: limiter_period_def Let_def)
qed

subsection \<open>Runs\<close>

lemma run_pool_inv:
  "pool_inv cfg st s \<Longrightarrow> run_pool cfg sch s = Inr s' \<Longrightarrow> pool_inv cfg st s'"
proof (induction sch arbitrary: s)
  case Nil
  then show ?case by simp
next
  case (Cons e es)
  show ?case
  proof (cases "pool_step cfg (fst e) (snd e) s")
    case Blocked
    with Cons show ?thesis by simp
  next
    case (Step s1)
    with Cons.prems have "pool_inv cfg st s1" "run_pool cfg es s1 = Inr s'"
      by (auto intro: pool_step_inv)
    then show ?thesis by (rule Cons.IH)
  next
    case (Crash f)
    with Cons.prems show ?thesis by simp
  qed
qed

lemma run_pool_init_inv:
  "run_pool cfg sch (pool_init st) = Inr s \<Longrightarrow> pool_inv cfg st s"
  using pool_inv_init run_pool_inv by blast

lemma sent_le: "inv_sender cfg s \<Longrightarrow> sent cfg s \<le> numTasks cfg"
  by (auto simp: inv_sender_def sent_def split: option.splits spc.splits)

lemma task_ids_mem: "x \<in> set (task_ids n) \<Longrightarrow> \<exists>i. 1 \<le> i \<and> i \<le> n \<and> x = of_nat i"
  by (auto simp: task_ids_def)

definition after_work :: "wpc \<Rightarrow> Task list" where
  "after_work pc = (case pc of WCount t \<Rightarrow> [t] | WTime t \<Rightarrow> [t] | WSend t \<Rightarrow> [t] | _ \<Rightarrow> [])"

definition processed :: "pool \<Rightarrow> Task list" where
  "processed s = concat (map after_work (workers s)) @ results s @ collected s"

lemma held_member: "pc \<in> set ws \<Longrightarrow> held pc \<subseteq># sum_list (map held ws)"
  by (induction ws) (auto intro: subset_mset.add_increasing)

lemma after_work_held: "t \<in> set (after_work pc) \<Longrightarrow> held pc = {#ID t#} \<and> (proc_ok pc \<longrightarrow> doubled t)"
  by (auto simp: after_work_def held_def proc_ok_def split: wpc.splits)

lemma processed_ok:
  assumes "pool_inv cfg st s" "t \<in> set (processed s)"
  shows "doubled t \<and> ID t \<in> set (task_ids (numTasks cfg))"
proof -
  let ?all = "mset (map ID (tasks s)) + sum_list (map held (workers s)) + mset (map ID (results s))
        + mset (map ID (collected s))"
  have dbl: "list_all proc_ok (workers s)" "list_all doubled (results s)"
    "list_all doubled (collected s)"
    using assms(1) by (simp_all add: pool_inv_def inv_doubled_def)
  have "doubled t \<and> ID t \<in># ?all"
  proof -
    consider pc where "pc \<in> set (workers s)" "t \<in> set (after_work pc)"
      | "t \<in> set (results s)" | "t \<in> set (collected s)"
      using assms(2) by (auto simp: processed_def)
    then show ?thesis
    proof cases
      case 1
      then have "held pc = {#ID t#}" "doubled t"
        using after_work_held [of t pc] dbl(1) by (auto simp: list_all_iff)
      moreover have "held pc \<subseteq># sum_list (map held (workers s))"
        using 1(1) by (rule held_member)
      ultimately show ?thesis by (auto dest: mset_subset_eqD)
    next
      case 2
      then show ?thesis using dbl(2) by (auto simp: list_all_iff)
    next
      case 3
      then show ?thesis using dbl(3) by (auto simp: list_all_iff)
    qed
  qed
  moreover have "?all = mset (task_ids (sent cfg s))"
    using assms(1) by (simp add: pool_inv_def inv_ids_def)
  ultimately have "doubled t" "ID t \<in> set (task_ids (sent cfg s))"
    by (simp_all only: set_mset_mset [symmetric])
  moreover have "sent cfg s \<le> numTasks cfg"
    using assms(1) by (simp add: pool_inv_def sent_le)
  then have "set (task_ids (sent cfg s)) \<subseteq> set (task_ids (numTasks cfg))"
    by (auto simp: task_ids_def)
  ultimately show ?thesis by auto
qed

lemma sint_of_nat_small: "n < 2 ^ 63 \<Longrightarrow> sint (of_nat n :: 64 word) = int n"
  using sint_small [of "int n"] by simp

subsection \<open>The runs of \<open>main\<close>: three workers, ten tasks\<close>

text \<open>
  A schedule that gives every goroutine its turn, again and again; the third worker
  gets two turns in a round, so results arrive out of order.
\<close>

definition round_robin :: "nat \<Rightarrow> (pid \<times> nat) list" where
  "round_robin n =
     concat (replicate n
       [(Main, 0), (Worker 2, 30), (Sender, 0), (Worker 0, 70), (Closer, 0), (Worker 1, 50),
        (Worker 2, 10)])"

text \<open>Lines 119-120, 130 and 167-170: the constants of the first and second pool.\<close>

definition pool1 :: config where
  "pool1 = \<lparr>numWorkers = 3, numTasks = 10, worker_kind = Basic\<rparr>"

definition pool2 :: config where
  "pool2 = \<lparr>numWorkers = 3, numTasks = 10, worker_kind = RateLimited 2\<rparr>"

definition task_done :: "nat \<Rightarrow> Task" where
  "task_done i = \<lparr>ID = of_nat i, Result = of_nat i * 2\<rparr>"

definition pool_done :: "WorkerStats \<Rightarrow> Task list \<Rightarrow> pool" where
  "pool_done st ts =
     \<lparr>tasks = [], tasksClosed = True, results = [], resultsClosed = True, wg = 0,
      stats = st, workers = [WExit, WExit, WExit], mainpc = MDone, sender = Some SDone,
      closer = Some CDone, collected = ts\<rparr>"

definition pool1_final :: pool where
  "pool1_final =
     pool_done \<lparr>tasksProcessed = 10, totalTime = 440\<rparr>
       (map task_done [1, 3, 2, 4, 5, 7, 6, 8, 9, 10])"

definition pool2_final :: pool where
  "pool2_final =
     pool_done \<lparr>tasksProcessed = 20, totalTime = 840\<rparr>
       (map task_done [3, 1, 2, 4, 7, 5, 6, 8, 9, 10])"

lemma pool1_run: "run_pool pool1 (round_robin 28) (pool_init fresh_stats) = Inr pool1_final"
  by code_simp

lemma pool2_run:
  "run_pool pool2 (round_robin 32) (pool_init (stats pool1_final)) = Inr pool2_final"
  by code_simp

subsection \<open>No crash\<close>

text \<open>
  A rate is valid when the ticker of line 88 can be made: positive, and at most one
  operation per nanosecond.
\<close>

definition valid_kind :: "kind \<Rightarrow> bool" where
  "valid_kind kd =
     (case kd of Basic \<Rightarrow> True | RateLimited r \<Rightarrow> 0 < sint r \<and> sint r \<le> 1000000000)"

text \<open>
  A pool can be started without a crash when its rate is valid, or when it has no
  worker at all (then no ticker is ever made).
\<close>

definition startable :: "config \<Rightarrow> bool" where
  "startable cfg = (valid_kind (worker_kind cfg) \<or> numWorkers cfg = 0)"

lemma valid_startable: "valid_kind (worker_kind cfg) \<Longrightarrow> startable cfg"
  by (simp add: startable_def)

lemma no_workers: "pool_inv cfg st s \<Longrightarrow> numWorkers cfg = 0 \<Longrightarrow> workers s = []"
  by (auto simp: pool_inv_def inv_main_def split: mpc.splits)

lemma live_member: "k < length ws \<Longrightarrow> live (ws ! k) \<le> sum_list (map live ws)"
  using agg_split [of k ws live] by auto

lemma held_size: "k < length ws \<Longrightarrow> size (held (ws ! k)) \<le> size (sum_list (map held ws))"
  using agg_split [of k ws held] by auto

lemma ids_size:
  assumes "inv_ids cfg s"
  shows "length (tasks s) + size (sum_list (map held (workers s))) + length (results s)
    + length (collected s) = sent cfg s"
proof -
  have "size (mset (map ID (tasks s)) + sum_list (map held (workers s)) + mset (map ID (results s))
        + mset (map ID (collected s))) = size (mset (task_ids (sent cfg s)))"
    using assms by (simp only: inv_ids_def)
  then show ?thesis by (simp add: task_ids_def)
qed

lemma send_has_room:
  assumes "pool_inv cfg st s" "k < length (workers s)" "workers s ! k = WSend t"
  shows "length (results s) < numTasks cfg"
proof -
  have "size (held (workers s ! k)) = 1" using assms(3) by (simp add: held_def)
  with held_size [OF assms(2)] have "1 \<le> size (sum_list (map held (workers s)))" by simp
  moreover have "sent cfg s \<le> numTasks cfg"
    using assms(1) by (simp add: pool_inv_def sent_le)
  ultimately show ?thesis
    using ids_size [of cfg s] assms(1) by (simp add: pool_inv_def)
qed

lemma closed_all_exited:
  "inv_closer s \<Longrightarrow> resultsClosed s \<Longrightarrow> all_exited (workers s)"
  by (auto simp: inv_closer_def split: option.splits cpc.splits)

lemma all_exited_nth: "all_exited ws \<Longrightarrow> k < length ws \<Longrightarrow> ws ! k = WExit"
  by (simp add: all_exited_def list_all_length)

lemma worker_no_crash:
  assumes "pool_inv cfg st s" "valid_kind kd \<or> workers s = []"
  shows "worker_step (numTasks cfg) kd k d s \<noteq> Crash f"
proof (cases "k < length (workers s)")
  case False
  then show ?thesis by (simp add: worker_step_def)
next
  case True
  have "valid_kind kd"
    using assms(2) True by auto
  then have tick: "\<And>r. kd = RateLimited r \<Longrightarrow> \<exists>p. limiter_period r = Inr p"
    by (auto simp: valid_kind_def intro: limiter_period_ok)
  have open_res: "\<And>t. workers s ! k = WSend t \<Longrightarrow> \<not> resultsClosed s"
    using assms(1) True closed_all_exited [of s] all_exited_nth [of "workers s" k]
    by (auto simp: pool_inv_def)
  have "int (live (workers s ! k)) \<le> wg s"
    using assms(1) live_member [OF True]
    by (auto simp: pool_inv_def inv_wg_def split: mpc.splits)
  then have cnt: "workers s ! k = WDefer \<Longrightarrow> 1 \<le> wg s"
    by (simp add: live_def)
  show ?thesis
    using True tick open_res cnt
    by (auto simp: worker_step_def split: wpc.splits kind.splits sum.splits list.splits)
qed

lemma pool_step_no_crash:
  assumes "pool_inv cfg st s" "startable cfg"
  shows "pool_step cfg p d s \<noteq> Crash f"
proof (cases p)
  case Main
  then show ?thesis
    by (simp add: pool_step_def main_step_def split: mpc.splits list.splits)
next
  case Sender
  then show ?thesis
    using assms(1)
    by (auto simp: pool_step_def sender_step_def pool_inv_def inv_sender_def
        split: option.splits spc.splits)
next
  case Closer
  then show ?thesis
    using assms(1)
    by (auto simp: pool_step_def closer_step_def pool_inv_def inv_closer_def
        split: option.splits cpc.splits)
next
  case (Worker k)
  have "valid_kind (worker_kind cfg) \<or> workers s = []"
    using assms no_workers [of cfg st s] by (auto simp: startable_def)
  with Worker show ?thesis
    using worker_no_crash [OF assms(1)] by (simp add: pool_step_def)
qed

lemma run_pool_safe:
  assumes "startable cfg"
  shows "pool_inv cfg st s \<Longrightarrow> \<exists>s'. run_pool cfg sch s = Inr s' \<and> pool_inv cfg st s'"
proof (induction sch arbitrary: s)
  case Nil
  then show ?case by simp
next
  case (Cons e es)
  show ?case
  proof (cases "pool_step cfg (fst e) (snd e) s")
    case Blocked
    with Cons show ?thesis by simp
  next
    case (Step s1)
    with Cons.prems have "pool_inv cfg st s1" by (auto intro: pool_step_inv)
    from Cons.IH [OF this] Step show ?thesis by simp
  next
    case (Crash f)
    with pool_step_no_crash [OF Cons.prems assms] show ?thesis by blast
  qed
qed

subsection \<open>No deadlock, and a bound on the length of a run\<close>

lemma live_positive:
  "sum_list (map live ws) \<noteq> 0 \<Longrightarrow> \<exists>k < length ws. ws ! k \<noteq> WExit"
proof (induction ws)
  case Nil
  then show ?case by simp
next
  case (Cons pc ws)
  show ?case
  proof (cases "pc = WExit")
    case True
    with Cons obtain k where "k < length ws" "ws ! k \<noteq> WExit"
      by (auto simp: live_def)
    then have "Suc k < length (pc # ws) \<and> (pc # ws) ! Suc k \<noteq> WExit" by simp
    then show ?thesis by blast
  next
    case False
    then have "0 < length (pc # ws) \<and> (pc # ws) ! 0 \<noteq> WExit" by simp
    then show ?thesis by blast
  qed
qed

lemma sender_feeds:
  assumes "pool_inv cfg st s" "sender s \<noteq> None" "tasks s = []" "\<not> tasksClosed s"
  shows "sender_step cfg s \<noteq> Blocked"
  using assms
  by (auto simp: sender_step_def pool_inv_def inv_sender_def split: option.splits spc.splits)

lemma worker_progress:
  assumes inv: "pool_inv cfg st s" and k: "k < length (workers s)"
    and live: "workers s ! k \<noteq> WExit" and snd: "sender s \<noteq> None"
  shows "(\<forall>d. worker_step (numTasks cfg) (worker_kind cfg) k d s \<noteq> Blocked)
    \<or> sender_step cfg s \<noteq> Blocked"
proof (cases "workers s ! k = WRecv \<and> tasks s = [] \<and> \<not> tasksClosed s")
  case True
  then show ?thesis using sender_feeds [OF inv snd] by simp
next
  case False
  have room: "\<And>t. workers s ! k = WSend t \<Longrightarrow> length (results s) < numTasks cfg"
    using send_has_room [OF inv k] by simp
  have "\<forall>d. worker_step (numTasks cfg) (worker_kind cfg) k d s \<noteq> Blocked"
    using False k live room
    by (auto simp: worker_step_def split: wpc.splits kind.splits sum.splits list.splits)
  then show ?thesis ..
qed

lemma pool_progress:
  assumes inv: "pool_inv cfg st s" and nd: "mainpc s \<noteq> MDone"
  shows "\<exists>p. \<forall>d. pool_step cfg p d s \<noteq> Blocked"
proof (cases "main_step cfg s = Blocked")
  case False
  then have "\<forall>d. pool_step cfg Main d s \<noteq> Blocked" by (simp add: pool_step_def)
  then show ?thesis ..
next
  case True
  then have range: "mainpc s = MRange" "results s = []" "\<not> resultsClosed s"
    using nd by (auto simp: main_step_def split: mpc.splits list.splits if_splits)
  from inv range(1) have sp: "sender s \<noteq> None" "closer s \<noteq> None"
    by (simp_all add: pool_inv_def inv_main_def)
  show ?thesis
  proof (cases "closer_step s = Blocked")
    case False
    then have "\<forall>d. pool_step cfg Closer d s \<noteq> Blocked" by (simp add: pool_step_def)
    then show ?thesis ..
  next
    case True
    with sp(2) inv range(3) have "wg s \<noteq> 0"
      by (auto simp: closer_step_def pool_inv_def inv_closer_def
          split: option.splits cpc.splits if_splits)
    with inv range(1) have "sum_list (map live (workers s)) \<noteq> 0"
      by (auto simp: pool_inv_def inv_wg_def)
    from live_positive [OF this] obtain k where
      k: "k < length (workers s)" "workers s ! k \<noteq> WExit" by blast
    from worker_progress [OF inv k sp(1)]
    have "(\<forall>d. pool_step cfg (Worker k) d s \<noteq> Blocked) \<or> (\<forall>d. pool_step cfg Sender d s \<noteq> Blocked)"
      by (simp add: pool_step_def)
    then show ?thesis by blast
  qed
qed

text \<open>
  The steps that are left at most: every step of every goroutine makes \<open>remaining\<close>
  smaller, so no run goes on for ever.
\<close>

definition wcost :: "wpc \<Rightarrow> nat" where
  "wcost pc =
     (case pc of
        WTicker \<Rightarrow> 3 | WRecv \<Rightarrow> 2 | WLimit t \<Rightarrow> 8 | WWork t \<Rightarrow> 7 | WCount t \<Rightarrow> 6
      | WTime t \<Rightarrow> 5 | WSend t \<Rightarrow> 4 | WDefer \<Rightarrow> 1 | WExit \<Rightarrow> 0)"

definition mcost :: "config \<Rightarrow> mpc \<Rightarrow> nat" where
  "mcost cfg pc =
     (case pc of
        MFor i \<Rightarrow> 5 * (numWorkers cfg + 1 - i) + 4
      | MGo i \<Rightarrow> 5 * (numWorkers cfg + 1 - i) + 3
      | MSender \<Rightarrow> 3 | MCloser \<Rightarrow> 2 | MRange \<Rightarrow> 1 | MDone \<Rightarrow> 0)"

definition scost :: "config \<Rightarrow> spc option \<Rightarrow> nat" where
  "scost cfg pc =
     (case pc of
        None \<Rightarrow> 8 * numTasks cfg + 2
      | Some (SSend i) \<Rightarrow> 8 * (numTasks cfg + 1 - i) + 2
      | Some SClose \<Rightarrow> 1
      | Some SDone \<Rightarrow> 0)"

definition ccost :: "cpc option \<Rightarrow> nat" where
  "ccost pc = (case pc of None \<Rightarrow> 2 | Some CWait \<Rightarrow> 2 | Some CClose \<Rightarrow> 1 | Some CDone \<Rightarrow> 0)"

definition remaining :: "config \<Rightarrow> pool \<Rightarrow> nat" where
  "remaining cfg s =
     mcost cfg (mainpc s) + scost cfg (sender s) + ccost (closer s)
       + sum_list (map wcost (workers s)) + 7 * length (tasks s) + length (results s)"

lemma remaining_init: "remaining cfg (pool_init st) = 5 * numWorkers cfg + 8 * numTasks cfg + 8"
  by (simp add: remaining_def pool_init_def mcost_def scost_def ccost_def)

lemma worker_decreases:
  fixes s :: pool
  assumes "worker_step cap kd k d s = Step s'"
  shows "remaining cfg s' < remaining cfg s"
proof -
  have k: "k < length (workers s)" using assms by (rule worker_step_idx)
  from agg_split [OF k, of wcost] obtain D where
    D: "sum_list (map wcost (workers s)) = wcost (workers s ! k) + D"
       "\<And>y. sum_list (map wcost ((workers s)[k := y])) = wcost y + D"
    by blast
  show ?thesis
    using assms k D
    by (auto simp: remaining_def worker_step_def set_pc_def wcost_def
        split: if_splits wpc.splits kind.splits sum.splits list.splits)
qed

lemma main_decreases:
  assumes "pool_inv cfg st s" "main_step cfg s = Step s'"
  shows "remaining cfg s' < remaining cfg s"
  using assms
  by (auto simp: remaining_def main_step_def mcost_def scost_def ccost_def wcost_def start_pc_def
      pool_inv_def inv_main_def
      split: mpc.splits if_splits list.splits kind.splits)

lemma sender_decreases:
  assumes "sender_step cfg s = Step s'"
  shows "remaining cfg s' < remaining cfg s"
  using assms
  by (auto simp: remaining_def sender_step_def scost_def
      split: option.splits spc.splits if_splits)

lemma closer_decreases:
  assumes "closer_step s = Step s'"
  shows "remaining cfg s' < remaining cfg s"
  using assms
  by (auto simp: remaining_def closer_step_def ccost_def
      split: option.splits cpc.splits if_splits)

lemma pool_step_decreases:
  assumes "pool_inv cfg st s" "pool_step cfg p d s = Step s'"
  shows "remaining cfg s' < remaining cfg s"
  using assms
  by (cases p)
    (auto simp: pool_step_def
      intro: main_decreases sender_decreases closer_decreases worker_decreases)

lemma moves_bound:
  "pool_inv cfg st s \<Longrightarrow> moves cfg sch s \<le> remaining cfg s"
proof (induction sch arbitrary: s)
  case Nil
  then show ?case by simp
next
  case (Cons e es)
  show ?case
  proof (cases "pool_step cfg (fst e) (snd e) s")
    case Blocked
    with Cons show ?thesis by simp
  next
    case (Step s1)
    with Cons.prems have "pool_inv cfg st s1" "remaining cfg s1 < remaining cfg s"
      by (auto intro: pool_step_inv pool_step_decreases)
    with Cons.IH [of s1] Step show ?thesis by simp
  next
    case (Crash f)
    then show ?thesis by simp
  qed
qed

lemma can_finish:
  assumes "startable cfg"
  shows "pool_inv cfg st s \<Longrightarrow> \<exists>sch s'. run_pool cfg sch s = Inr s' \<and> mainpc s' = MDone"
proof (induction "remaining cfg s" arbitrary: s rule: less_induct)
  case less
  show ?case
  proof (cases "mainpc s = MDone")
    case True
    then have "run_pool cfg [] s = Inr s \<and> mainpc s = MDone" by simp
    then show ?thesis by blast
  next
    case False
    from pool_progress [OF less.prems False] obtain p where
      p: "pool_step cfg p 0 s \<noteq> Blocked" by blast
    with pool_step_no_crash [OF less.prems assms, of p 0] obtain s1 where
      s1: "pool_step cfg p 0 s = Step s1" by (cases "pool_step cfg p 0 s") auto
    then have "remaining cfg s1 < remaining cfg s" "pool_inv cfg st s1"
      using less.prems by (auto intro: pool_step_inv pool_step_decreases)
    from less.hyps [OF this] obtain sch s' where
      "run_pool cfg sch s1 = Inr s'" "mainpc s' = MDone" by blast
    with s1 have "run_pool cfg ((p, 0) # sch) s = Inr s' \<and> mainpc s' = MDone" by simp
    then show ?thesis by blast
  qed
qed

subsection \<open>The state when \<open>main\<close> has left its loop\<close>

definition expected :: "nat \<Rightarrow> Task list" where
  "expected n = map task_done [1..<Suc n]"

definition done_of_id :: "64 word \<Rightarrow> Task" where
  "done_of_id x = \<lparr>ID = x, Result = x * 2\<rparr>"

lemma doubled_list: "list_all doubled ts \<Longrightarrow> map done_of_id (map ID ts) = ts"
  by (induction ts) (auto simp: doubled_def done_of_id_def)

lemma expected_ids: "map done_of_id (task_ids n) = expected n"
  by (simp add: expected_def task_ids_def task_done_def done_of_id_def)

lemma all_exited_sums:
  "all_exited ws \<Longrightarrow>
     sum_list (map held ws) = {#} \<and> sum_list (map counted ws) = 0
     \<and> concat (map after_work ws) = []"
  by (induction ws) (auto simp: all_exited_def held_def counted_def after_work_def)

lemma done_all_exited:
  assumes "pool_inv cfg st s" "mainpc s = MDone"
  shows "all_exited (workers s) \<and> results s = [] \<and> resultsClosed s
    \<and> length (workers s) = numWorkers cfg \<and> closer s = Some CDone"
  using assms
  by (auto simp: pool_inv_def inv_main_def inv_closer_def split: option.splits cpc.splits)

lemma done_sent_all:
  assumes "pool_inv cfg st s" "mainpc s = MDone" "1 \<le> numWorkers cfg"
  shows "tasks s = [] \<and> sent cfg s = numTasks cfg"
proof -
  from done_all_exited [OF assms(1,2)]
  have ex: "all_exited (workers s)" and len: "length (workers s) = numWorkers cfg"
    by simp_all
  from len assms(3) have "0 < length (workers s)" by simp
  then have "workers s ! 0 \<in> set (workers s)" "workers s ! 0 = WExit"
    using ex by (auto intro: nth_mem all_exited_nth)
  then have "some_left (workers s)"
    by (auto simp: some_left_def list_ex_iff)
  with assms(1) have dr: "tasks s = []" "tasksClosed s"
    by (simp_all add: pool_inv_def inv_drained_def)
  with assms(1) have "sender s = Some SDone"
    by (auto simp: pool_inv_def inv_sender_def split: option.splits spc.splits)
  with dr show ?thesis by (simp add: sent_def)
qed

lemma done_collected:
  assumes "pool_inv cfg st s" "mainpc s = MDone" "1 \<le> numWorkers cfg"
  shows "mset (collected s) = mset (expected (numTasks cfg))"
proof -
  from done_all_exited [OF assms(1,2)] have ex: "all_exited (workers s)" "results s = []"
    by simp_all
  from done_sent_all [OF assms] have all: "tasks s = []" "sent cfg s = numTasks cfg"
    by simp_all
  from assms(1) ex all all_exited_sums [OF ex(1)]
  have ids: "mset (map ID (collected s)) = mset (task_ids (numTasks cfg))"
    by (simp add: pool_inv_def inv_ids_def)
  from assms(1) have "list_all doubled (collected s)"
    by (simp add: pool_inv_def inv_doubled_def)
  then have "mset (collected s) = mset (map done_of_id (map ID (collected s)))"
    by (simp only: doubled_list)
  also have "\<dots> = image_mset done_of_id (mset (map ID (collected s)))"
    by (simp only: mset_map)
  also have "\<dots> = mset (map done_of_id (task_ids (numTasks cfg)))"
    using ids by simp
  finally show ?thesis by (simp only: expected_ids)
qed

lemma done_count:
  assumes "pool_inv cfg st s" "mainpc s = MDone" "1 \<le> numWorkers cfg"
  shows "tasksProcessed (stats s) = tasksProcessed st + of_nat (numTasks cfg)"
proof -
  from done_all_exited [OF assms(1,2)] have ex: "all_exited (workers s)" "results s = []"
    by simp_all
  from done_collected [OF assms] have "size (mset (collected s)) = size (mset (expected (numTasks cfg)))"
    by simp
  then have "length (collected s) = numTasks cfg"
    by (simp add: expected_def)
  with assms(1) ex all_exited_sums [OF ex(1)] show ?thesis
    by (simp add: pool_inv_def inv_count_def)
qed

lemma done_processed:
  assumes "pool_inv cfg st s" "mainpc s = MDone"
  shows "processed s = collected s"
  using done_all_exited [OF assms] all_exited_sums [of "workers s"]
  by (simp add: processed_def)

lemma closed_after_workers:
  assumes "pool_inv cfg st s" "resultsClosed s"
  shows "length (workers s) = numWorkers cfg \<and> all_exited (workers s)"
  using assms
  by (auto simp: pool_inv_def inv_main_def inv_closer_def
      split: option.splits cpc.splits mpc.splits)

lemma can_move:
  assumes "pool_inv cfg st s" "startable cfg" "mainpc s \<noteq> MDone"
  shows "\<exists>p. \<forall>d. \<exists>s'. pool_step cfg p d s = Step s'"
proof -
  from pool_progress [OF assms(1,3)] obtain p where
    p: "\<And>d. pool_step cfg p d s \<noteq> Blocked" by blast
  have "\<exists>s'. pool_step cfg p d s = Step s'" for d
    using p [of d] pool_step_no_crash [OF assms(1,2), of p d]
    by (cases "pool_step cfg p d s") auto
  then show ?thesis by blast
qed

lemma main_leaves_loop:
  assumes "mainpc s = MRange"
  shows "((\<exists>s'. main_step cfg s = Step s' \<and> mainpc s' = MDone) \<longleftrightarrow> resultsClosed s \<and> results s = [])
    \<and> (main_step cfg s = Blocked \<longleftrightarrow> \<not> resultsClosed s \<and> results s = [])"
  using assms by (auto simp: main_step_def split: list.splits)

subsection \<open>Reading the statistics (lines 152-155)\<close>

text \<open>
  \<open>atomic.LoadUint64(&stats.tasksProcessed)\<close> and \<open>atomic.LoadInt64(&stats.totalTime)\<close>:
  the two loads read the shared object and change nothing.
\<close>

definition snapshot :: "pool \<Rightarrow> 64 word \<times> 64 word" where
  "snapshot s = (tasksProcessed (stats s), totalTime (stats s))"

lemma done_step:
  assumes "pool_inv cfg st s" "mainpc s = MDone"
  shows "pool_step cfg p d s = Blocked
    \<or> (\<exists>s'. pool_step cfg p d s = Step s' \<and> stats s' = stats s \<and> mainpc s' = MDone)"
proof (cases p)
  case Main
  with assms(2) show ?thesis by (simp add: pool_step_def main_step_def)
next
  case Sender
  then show ?thesis
    using assms
    by (auto simp: pool_step_def sender_step_def pool_inv_def inv_sender_def
        split: option.splits spc.splits)
next
  case Closer
  then show ?thesis
    using done_all_exited [OF assms] by (simp add: pool_step_def closer_step_def)
next
  case (Worker k)
  have "worker_step (numTasks cfg) (worker_kind cfg) k d s = Blocked"
    using done_all_exited [OF assms] all_exited_nth [of "workers s" k]
    by (simp add: worker_step_def)
  with Worker show ?thesis by (simp add: pool_step_def)
qed

lemma done_run:
  "pool_inv cfg st s \<Longrightarrow> mainpc s = MDone \<Longrightarrow>
     \<exists>s'. run_pool cfg sch s = Inr s' \<and> stats s' = stats s \<and> mainpc s' = MDone"
proof (induction sch arbitrary: s)
  case Nil
  then show ?case by simp
next
  case (Cons e es)
  from done_step [OF Cons.prems, of "fst e" "snd e"]
  consider "pool_step cfg (fst e) (snd e) s = Blocked"
    | s1 where "pool_step cfg (fst e) (snd e) s = Step s1" "stats s1 = stats s" "mainpc s1 = MDone"
    by blast
  then show ?case
  proof cases
    case 1
    with Cons.IH [OF Cons.prems] show ?thesis by simp
  next
    case 2
    with Cons.prems have "pool_inv cfg st s1" by (auto intro: pool_step_inv)
    from Cons.IH [OF this 2(3)] 2 show ?thesis by simp
  qed
qed

subsection \<open>What a step does to the statistics\<close>

lemma step_stats:
  assumes "pool_step cfg p d s = Step s'"
  shows "stats s' = stats s
    \<or> stats s' = (stats s)\<lparr>tasksProcessed := tasksProcessed (stats s) + 1\<rparr>
    \<or> stats s' = (stats s)\<lparr>totalTime := totalTime (stats s) + elapsed d\<rparr>"
proof (cases p)
  case Main
  with assms show ?thesis
    by (auto simp: pool_step_def main_step_def split: mpc.splits if_splits list.splits)
next
  case Sender
  with assms show ?thesis
    by (auto simp: pool_step_def sender_step_def split: option.splits spc.splits if_splits)
next
  case Closer
  with assms show ?thesis
    by (auto simp: pool_step_def closer_step_def split: option.splits cpc.splits if_splits)
next
  case (Worker k)
  with assms show ?thesis
    by (auto simp: pool_step_def worker_step_def set_pc_def
        split: if_splits wpc.splits kind.splits sum.splits list.splits)
qed

lemma unat_inc: "unat x + 1 < 2 ^ 64 \<Longrightarrow> unat (x + 1 :: 64 word) = unat x + 1"
  using unat_add_lem [of x 1] by simp

lemma sint_add_small:
  assumes "0 \<le> sint x" "0 \<le> sint y" "sint x + sint y < 2 ^ 63"
  shows "sint (x + y :: 64 word) = sint x + sint y"
  using assms by (simp add: sint_word_ariths signed_take_bit_int_eq_self)

definition clock_total :: "(pid \<times> nat) list \<Rightarrow> int" where
  "clock_total sch = sum_list (map (\<lambda>e. int (snd e)) sch)"

lemma clock_total_Cons: "clock_total (e # es) = int (snd e) + clock_total es"
  by (simp add: clock_total_def)

lemma clock_total_nonneg: "0 \<le> clock_total sch"
  by (induction sch) (simp_all add: clock_total_def)

lemma run_stats_bounds:
  "run_pool cfg sch s = Inr s' \<Longrightarrow>
   unat (tasksProcessed (stats s)) + length sch < 2 ^ 64 \<Longrightarrow>
   0 \<le> sint (totalTime (stats s)) \<Longrightarrow>
   sint (totalTime (stats s)) + clock_total sch < 2 ^ 63 \<Longrightarrow>
   unat (tasksProcessed (stats s)) \<le> unat (tasksProcessed (stats s'))
   \<and> sint (totalTime (stats s)) \<le> sint (totalTime (stats s'))"
proof (induction sch arbitrary: s)
  case Nil
  then show ?case by simp
next
  case (Cons e es)
  have nn: "0 \<le> clock_total es" by (rule clock_total_nonneg)
  show ?case
  proof (cases "pool_step cfg (fst e) (snd e) s")
    case Blocked
    with Cons.prems have a: "run_pool cfg es s = Inr s'" by simp
    have b: "unat (tasksProcessed (stats s)) + length es < 2 ^ 64"
      using Cons.prems(2) by simp
    have c: "sint (totalTime (stats s)) + clock_total es < 2 ^ 63"
      using Cons.prems(4) by (simp add: clock_total_Cons)
    from a b Cons.prems(3) c show ?thesis by (rule Cons.IH)
  next
    case (Crash f)
    with Cons.prems show ?thesis by simp
  next
    case (Step s1)
    with Cons.prems have run: "run_pool cfg es s1 = Inr s'" by simp
    from step_stats [OF Step] consider
      (same) "stats s1 = stats s"
      | (count) "stats s1 = (stats s)\<lparr>tasksProcessed := tasksProcessed (stats s) + 1\<rparr>"
      | (time) "stats s1 = (stats s)\<lparr>totalTime := totalTime (stats s) + elapsed (snd e)\<rparr>"
      by blast
    then show ?thesis
    proof cases
      case same
      have "unat (tasksProcessed (stats s1)) + length es < 2 ^ 64"
        using Cons.prems(2) same by simp
      moreover have "0 \<le> sint (totalTime (stats s1))"
        using Cons.prems(3) same by simp
      moreover have "sint (totalTime (stats s1)) + clock_total es < 2 ^ 63"
        using Cons.prems(4) same by (simp add: clock_total_Cons)
      ultimately show ?thesis using Cons.IH [OF run] same by simp
    next
      case count
      have u: "unat (tasksProcessed (stats s) + 1) = unat (tasksProcessed (stats s)) + 1"
        using Cons.prems(2) by (intro unat_inc) simp
      have "unat (tasksProcessed (stats s1)) + length es < 2 ^ 64"
        using Cons.prems(2) count u by simp
      moreover have "0 \<le> sint (totalTime (stats s1))"
        using Cons.prems(3) count by simp
      moreover have "sint (totalTime (stats s1)) + clock_total es < 2 ^ 63"
        using Cons.prems(4) count by (simp add: clock_total_Cons)
      ultimately show ?thesis using Cons.IH [OF run] count u by simp
    next
      case time
      have el: "0 \<le> sint (elapsed (snd e))" "sint (elapsed (snd e)) \<le> int (snd e)"
        by (simp_all add: sint_elapsed)
      have t: "sint (totalTime (stats s) + elapsed (snd e))
          = sint (totalTime (stats s)) + sint (elapsed (snd e))"
        using Cons.prems(3,4) el nn by (intro sint_add_small) (simp_all add: clock_total_Cons)
      have "unat (tasksProcessed (stats s1)) + length es < 2 ^ 64"
        using Cons.prems(2) time by simp
      moreover have "0 \<le> sint (totalTime (stats s1))"
        using Cons.prems(3) time t el by simp
      moreover have "sint (totalTime (stats s1)) + clock_total es < 2 ^ 63"
        using Cons.prems(4) time t el by (simp add: clock_total_Cons)
      ultimately show ?thesis using Cons.IH [OF run] time t el by simp
    qed
  qed
qed

lemma round_robin_28: "length (round_robin 28) = 196" "clock_total (round_robin 28) = 4480"
  by code_simp+

subsection \<open>A pool without workers, a limiter without rate\<close>

text \<open>
  A pool in which no worker has got anywhere: every worker that was started is still
  at its first statement, nothing was processed and nothing collected.
\<close>

definition untouched :: "WorkerStats \<Rightarrow> pool \<Rightarrow> bool" where
  "untouched st s =
     (list_all (\<lambda>pc. pc = WTicker) (workers s) \<and> results s = [] \<and> collected s = []
      \<and> stats s = st)"

lemma limiter_period_zero: "limiter_period 0 = Inl DivideByZero"
  by (simp add: limiter_period_def)

lemma ticker_crashes:
  assumes "k < length (workers s)" "workers s ! k = WTicker"
  shows "worker_step cap (RateLimited 0) k d s = Crash DivideByZero"
  using assms by (simp add: worker_step_def limiter_period_zero)

lemma untouched_init: "untouched st (pool_init st)"
  by (simp add: untouched_def pool_init_def)

lemma untouched_step:
  assumes inv: "pool_inv cfg st s" and un: "untouched st s"
    and cfg: "worker_kind cfg = RateLimited 0 \<or> numWorkers cfg = 0"
  shows "case pool_step cfg p d s of
           Blocked \<Rightarrow> True
         | Step s' \<Rightarrow> untouched st s'
         | Crash f \<Rightarrow> f = DivideByZero \<and> worker_kind cfg = RateLimited 0"
proof (cases p)
  case Main
  have "numWorkers cfg = 0 \<Longrightarrow> \<forall>i. mainpc s \<noteq> MGo i"
    using inv by (auto simp: pool_inv_def inv_main_def)
  with cfg have "(\<exists>i. mainpc s = MGo i) \<Longrightarrow> start_pc (worker_kind cfg) = WTicker"
    by (auto simp: start_pc_def)
  with Main un show ?thesis
    by (auto simp: pool_step_def main_step_def untouched_def split: mpc.splits)
next
  case Sender
  with un inv show ?thesis
    by (auto simp: pool_step_def sender_step_def untouched_def pool_inv_def inv_sender_def
        split: option.splits spc.splits)
next
  case Closer
  with un inv show ?thesis
    by (auto simp: pool_step_def closer_step_def untouched_def pool_inv_def inv_closer_def
        split: option.splits cpc.splits)
next
  case (Worker k)
  show ?thesis
  proof (cases "k < length (workers s)")
    case False
    with Worker show ?thesis by (simp add: pool_step_def worker_step_def)
  next
    case True
    with un have at: "workers s ! k = WTicker"
      by (simp add: untouched_def list_all_length)
    from True no_workers [OF inv] cfg have "worker_kind cfg = RateLimited 0" by auto
    with Worker ticker_crashes [OF True at] show ?thesis
      by (simp add: pool_step_def)
  qed
qed

lemma untouched_run:
  assumes cfg: "worker_kind cfg = RateLimited 0 \<or> numWorkers cfg = 0"
  shows "pool_inv cfg st s \<Longrightarrow> untouched st s \<Longrightarrow>
    (case run_pool cfg sch s of
       Inl f \<Rightarrow> f = DivideByZero \<and> worker_kind cfg = RateLimited 0
     | Inr s' \<Rightarrow> untouched st s' \<and> pool_inv cfg st s')"
proof (induction sch arbitrary: s)
  case Nil
  then show ?case by simp
next
  case (Cons e es)
  from untouched_step [OF Cons.prems cfg, of "fst e" "snd e"]
  show ?case
  proof (cases "pool_step cfg (fst e) (snd e) s")
    case Blocked
    with Cons show ?thesis by simp
  next
    case (Step s1)
    with untouched_step [OF Cons.prems cfg, of "fst e" "snd e"] Cons.prems(1)
    have "pool_inv cfg st s1" "untouched st s1"
      by (auto intro: pool_step_inv)
    from Cons.IH [OF this] Step show ?thesis by simp
  next
    case (Crash f)
    with untouched_step [OF Cons.prems cfg, of "fst e" "snd e"] show ?thesis by simp
  qed
qed

lemma zero_rate_crash:
  assumes "worker_kind cfg = RateLimited 0" "1 \<le> numWorkers cfg"
  shows "run_pool cfg [(Main, 0), (Main, 0), (Worker 0, 0)] (pool_init st) = Inl DivideByZero"
  using assms
  by (simp add: pool_step_def main_step_def pool_init_def worker_step_def start_pc_def
      limiter_period_zero)

text \<open>Pools as the claim has them: no worker at all; a rate of zero.\<close>

definition no_workers_cfg :: config where
  "no_workers_cfg = \<lparr>numWorkers = 0, numTasks = 10, worker_kind = Basic\<rparr>"

definition zero_rate_cfg :: config where
  "zero_rate_cfg = \<lparr>numWorkers = 3, numTasks = 10, worker_kind = RateLimited 0\<rparr>"

definition no_workers_final :: pool where
  "no_workers_final =
     \<lparr>tasks = map (\<lambda>i. \<lparr>ID = of_nat i, Result = 0\<rparr>) [1, 2, 3, 4], tasksClosed = False,
      results = [], resultsClosed = True, wg = 0, stats = fresh_stats, workers = [],
      mainpc = MDone, sender = Some (SSend 5), closer = Some CDone, collected = []\<rparr>"

lemma no_workers_run:
  "run_pool no_workers_cfg (round_robin 5) (pool_init fresh_stats) = Inr no_workers_final"
  by code_simp

lemma zero_rate_run:
  "run_pool zero_rate_cfg (round_robin 2) (pool_init fresh_stats) = Inl DivideByZero"
  by code_simp

subsection \<open>The dynamic pool: the backlog stays at five\<close>

text \<open>The tasks \<open>main\<close> has sent so far, and whether it is past the loop of line 203.\<close>

definition dsent :: "dpc \<Rightarrow> nat" where
  "dsent pc =
     (case pc of DFor i \<Rightarrow> 0 | DGo i \<Rightarrow> 0 | DScaler \<Rightarrow> 0 | DSend i \<Rightarrow> i - 1 | _ \<Rightarrow> dyn_tasks)"

definition workers_started :: "dpc \<Rightarrow> bool" where
  "workers_started pc = (case pc of DFor i \<Rightarrow> False | DGo i \<Rightarrow> False | _ \<Rightarrow> True)"

definition dyn_inv :: "dynpool \<Rightarrow> bool" where
  "dyn_inv s =
     (length (tasks s) \<le> dsent (dmainpc s)
      \<and> scaler s \<noteq> Some ScAdd \<and> scaler s \<noteq> Some ScGo
      \<and> (case dmainpc s of
            DFor i \<Rightarrow> 1 \<le> i \<and> i \<le> initialWorkers + 1 \<and> length (workers s) = i - 1
          | DGo i \<Rightarrow> 1 \<le> i \<and> i \<le> initialWorkers \<and> length (workers s) = i - 1
          | DSend i \<Rightarrow> 1 \<le> i \<and> i \<le> dyn_tasks + 1 \<and> length (workers s) = initialWorkers
          | _ \<Rightarrow> length (workers s) = initialWorkers))"

lemma dsent_le: "dyn_inv s \<Longrightarrow> dsent (dmainpc s) \<le> dyn_tasks"
  by (auto simp: dyn_inv_def dsent_def split: dpc.splits)

lemma dyn_inv_init: "dyn_inv (dyn_init st)"
  by (simp add: dyn_inv_def dyn_init_def dsent_def initialWorkers_def)

lemma dmain_inv:
  assumes "dyn_inv s" "dmain_step s = Step s'"
  shows "dyn_inv s'"
  using assms
  by (auto simp: dyn_inv_def dmain_step_def dsent_def initialWorkers_def dyn_tasks_def
      split: dpc.splits if_splits list.splits)

lemma scaler_inv:
  assumes "dyn_inv s" "scaler_step s = Step s'"
  shows "dyn_inv s'"
proof -
  have "length (tasks s) \<le> dyn_tasks"
    using assms(1) dsent_le [of s] by (simp add: dyn_inv_def)
  then have "\<not> length (tasks s) > high_load"
    by (simp add: dyn_tasks_def high_load_def)
  then show ?thesis
    using assms
    by (auto simp: dyn_inv_def scaler_step_def split: option.splits scpc.splits dpc.splits)
qed

lemma worker_step_dyn:
  fixes s :: dynpool
  assumes "worker_step cap kd k d s = Step s'"
  shows "dmainpc s' = dmainpc s \<and> scaler s' = scaler s \<and> length (workers s') = length (workers s)
    \<and> length (tasks s') \<le> length (tasks s)"
  using assms
  by (auto simp: worker_step_def set_pc_def
      split: if_splits wpc.splits kind.splits sum.splits list.splits)

lemma dworker_inv:
  assumes "dyn_inv s" "worker_step cap kd k d s = Step s'"
  shows "dyn_inv s'"
  using assms(1) worker_step_dyn [OF assms(2)]
  by (auto simp: dyn_inv_def split: dpc.splits)

lemma dyn_step_inv:
  assumes "dyn_inv s" "dyn_step p d s = Step s'"
  shows "dyn_inv s'"
  using assms
  by (cases p) (auto simp: dyn_step_def intro: dmain_inv scaler_inv dworker_inv)

lemma run_dyn_inv: "dyn_inv s \<Longrightarrow> run_dyn sch s = Inr s' \<Longrightarrow> dyn_inv s'"
proof (induction sch arbitrary: s)
  case Nil
  then show ?case by simp
next
  case (Cons e es)
  show ?case
  proof (cases "dyn_step (fst e) (snd e) s")
    case Blocked
    with Cons show ?thesis by simp
  next
    case (Step s1)
    with Cons.prems have "dyn_inv s1" "run_dyn es s1 = Inr s'"
      by (auto intro: dyn_step_inv)
    then show ?thesis by (rule Cons.IH)
  next
    case (Crash f)
    with Cons.prems show ?thesis by simp
  qed
qed

text \<open>
  A schedule in which \<open>main\<close> gets ahead: it starts the workers and the checking
  goroutine and sends all five tasks before anyone else moves, so the check sees the
  largest backlog there can be; then everyone takes turns.
\<close>

definition dyn_schedule :: "(dpid \<times> nat) list" where
  "dyn_schedule =
     replicate 11 (DMain, 0) @ [(DScale, 0)]
     @ concat (replicate 25 [(DMain, 0), (DWorker 0, 70), (DWorker 1, 50), (DWorker 2, 30)])"

definition dyn_backlog :: dynpool where
  "dyn_backlog =
     \<lparr>tasks = map (\<lambda>i. \<lparr>ID = of_nat i, Result = 0\<rparr>) [1, 2, 3, 4, 5], tasksClosed = False,
      results = [], resultsClosed = False, wg = 2, stats = stats pool2_final,
      workers = [WRecv, WRecv], dmainpc = DSend 6, scaler = Some ScCheck, dcollected = []\<rparr>"

definition dyn_final :: dynpool where
  "dyn_final =
     \<lparr>tasks = [], tasksClosed = True, results = [], resultsClosed = True, wg = 0,
      stats = \<lparr>tasksProcessed = 25, totalTime = 1150\<rparr>, workers = [WExit, WExit],
      dmainpc = DDone, scaler = Some ScDone, dcollected = map task_done [1, 2, 3, 4, 5]\<rparr>"

lemma dyn_backlog_run:
  "run_dyn (replicate 11 (DMain, 0)) (dyn_init (stats pool2_final)) = Inr dyn_backlog"
  by code_simp

lemma dyn_final_run: "run_dyn dyn_schedule (dyn_init (stats pool2_final)) = Inr dyn_final"
  by code_simp

section \<open>The claims\<close>

text \<open>
  C5: every task that a worker has processed, whether the pool runs \<open>worker\<close> or
  \<open>rateLimitedWorker\<close>, whichever worker took it and wherever the task is by now
  (still in the worker's hands, in the result channel, or collected by \<open>main\<close>),
  has \<open>Result = ID * 2\<close> in Go's \<open>int\<close> arithmetic, and its \<open>ID\<close> is one of
  \<open>1, ..., numTasks\<close>; for fewer than \<open>2 ^ 62\<close> tasks the product does not wrap
  around, so the result is twice the id as a number. This holds in every state that a
  schedule reaches, for every number of workers and tasks, the scenario of three
  workers and ten tasks included.
\<close>

theorem C5_result_is_id_doubled:
  assumes "run_pool cfg sch (pool_init st) = Inr s" and "t \<in> set (processed s)"
  shows "Result t = ID t * 2
    \<and> (\<exists>i. 1 \<le> i \<and> i \<le> numTasks cfg \<and> ID t = of_nat i)
    \<and> (numTasks cfg < 2 ^ 62 \<longrightarrow> sint (Result t) = 2 * sint (ID t))"
proof -
  have inv: "pool_inv cfg st s"
    using assms(1) by (rule run_pool_init_inv)
  from processed_ok [OF inv assms(2)]
  have d: "Result t = ID t * 2" and m: "ID t \<in> set (task_ids (numTasks cfg))"
    by (simp_all add: doubled_def)
  from task_ids_mem [OF m] obtain i where i: "1 \<le> i" "i \<le> numTasks cfg" "ID t = of_nat i"
    by blast
  have "sint (Result t) = 2 * sint (ID t)" if "numTasks cfg < 2 ^ 62"
  proof -
    have "i < 2 ^ 63" "2 * i < 2 ^ 63" using that i(2) by simp_all
    then have "sint (of_nat i :: 64 word) = int i" "sint (of_nat (2 * i) :: 64 word) = int (2 * i)"
      by (simp_all only: sint_of_nat_small)
    moreover have "Result t = of_nat (2 * i)" using d i(3) by (simp add: mult.commute)
    ultimately show ?thesis using i(3) by simp
  qed
  with d i show ?thesis by blast
qed

theorem C5_result_is_id_doubled_witness:
  "run_pool pool1 (round_robin 28) (pool_init fresh_stats) = Inr pool1_final
   \<and> task_done 7 \<in> set (processed pool1_final)
   \<and> numTasks pool1 < 2 ^ 62
   \<and> Result (task_done 7) = ID (task_done 7) * 2
   \<and> sint (Result (task_done 7)) = 2 * sint (ID (task_done 7))"
proof -
  have m: "task_done 7 \<in> set (processed pool1_final)"
    by (simp add: processed_def pool1_final_def pool_done_def)
  have n: "numTasks pool1 < 2 ^ 62"
    by (simp add: pool1_def)
  from C5_result_is_id_doubled [OF pool1_run m] n pool1_run m show ?thesis
    by blast
qed

text \<open>
  C1: a pool of at least one worker (of either kind, with a valid rate) and any number
  \<open>numTasks\<close> of tasks. Whatever the schedule: the run does not crash; once \<open>main\<close>
  has left its loop over the results it has collected exactly the tasks
  \<open>1, ..., numTasks\<close>, each once and each processed (equality of multisets, so none
  is lost and none is duplicated); before that some goroutine can always move (no
  deadlock), the run can always be completed, and no run has more than
  \<open>5 * numWorkers + 8 * numTasks + 8\<close> moves (so it does complete). With no task at
  all the collected list is empty.
\<close>

theorem C1_all_tasks_collected_once:
  assumes "1 \<le> numWorkers cfg" and "valid_kind (worker_kind cfg)"
  shows "\<exists>s. run_pool cfg sch (pool_init st) = Inr s
    \<and> (mainpc s = MDone \<longrightarrow>
          mset (collected s) = mset (expected (numTasks cfg))
          \<and> length (collected s) = numTasks cfg)
    \<and> (mainpc s \<noteq> MDone \<longrightarrow> (\<exists>p. \<forall>d. \<exists>s'. pool_step cfg p d s = Step s'))
    \<and> (\<exists>sch' s'. run_pool cfg sch' s = Inr s' \<and> mainpc s' = MDone)
    \<and> moves cfg sch (pool_init st) \<le> 5 * numWorkers cfg + 8 * numTasks cfg + 8"
proof -
  have ok: "startable cfg"
    using assms(2) by (rule valid_startable)
  have "\<exists>s. run_pool cfg sch (pool_init st) = Inr s \<and> pool_inv cfg st s"
    using ok pool_inv_init by (rule run_pool_safe)
  then obtain s where
    s: "run_pool cfg sch (pool_init st) = Inr s" "pool_inv cfg st s" by blast
  have a: "mset (collected s) = mset (expected (numTasks cfg))
      \<and> length (collected s) = numTasks cfg" if "mainpc s = MDone"
  proof -
    have m: "mset (collected s) = mset (expected (numTasks cfg))"
      using s(2) that assms(1) by (rule done_collected)
    then have "size (mset (collected s)) = size (mset (expected (numTasks cfg)))" by simp
    then have "length (collected s) = numTasks cfg" by (simp add: expected_def)
    with m show ?thesis by simp
  qed
  have b: "\<exists>p. \<forall>d. \<exists>s'. pool_step cfg p d s = Step s'" if "mainpc s \<noteq> MDone"
    using s(2) ok that by (rule can_move)
  have c: "\<exists>sch' s'. run_pool cfg sch' s = Inr s' \<and> mainpc s' = MDone"
    using ok s(2) by (rule can_finish)
  have d: "moves cfg sch (pool_init st) \<le> 5 * numWorkers cfg + 8 * numTasks cfg + 8"
  proof -
    have "moves cfg sch (pool_init st) \<le> remaining cfg (pool_init st)"
      using pool_inv_init by (rule moves_bound)
    then show ?thesis by (simp add: remaining_init)
  qed
  from s(1) a b c d show ?thesis by blast
qed

theorem C1_all_tasks_collected_once_witness:
  "1 \<le> numWorkers pool1 \<and> valid_kind (worker_kind pool1)
   \<and> run_pool pool1 (round_robin 28) (pool_init fresh_stats) = Inr pool1_final
   \<and> mainpc pool1_final = MDone
   \<and> mset (collected pool1_final) = mset (expected (numTasks pool1))
   \<and> length (collected pool1_final) = numTasks pool1
   \<and> numTasks pool1 = 10"
proof -
  have w: "1 \<le> numWorkers pool1" and v: "valid_kind (worker_kind pool1)"
    and n: "numTasks pool1 = 10"
    by (simp_all add: pool1_def valid_kind_def)
  have dn: "mainpc pool1_final = MDone"
    by (simp add: pool1_final_def pool_done_def)
  from C1_all_tasks_collected_once [OF w v, of "round_robin 28" fresh_stats] pool1_run dn
  have "mset (collected pool1_final) = mset (expected (numTasks pool1))
      \<and> length (collected pool1_final) = numTasks pool1"
    by auto
  with w v n dn pool1_run show ?thesis by simp
qed

text \<open>
  C4: in every state that a schedule reaches, the result channel is closed only when
  all \<open>numWorkers\<close> workers have been started and every one of them has returned;
  \<open>main\<close>'s loop over the results is left only when the channel is closed and empty,
  and then nothing that a worker processed is anywhere but in the collected list (no
  result was missed); at the loop, \<open>main\<close>'s step leaves the loop exactly when the
  channel is closed and empty and blocks exactly when it is open and empty; and the
  loop never hangs: until it is left some goroutine can move, and a run has at most
  \<open>5 * numWorkers + 8 * numTasks + 8\<close> moves.
\<close>

theorem C4_closed_after_workers_loop_ends_when_drained:
  assumes "run_pool cfg sch (pool_init st) = Inr s" and "valid_kind (worker_kind cfg)"
  shows "(resultsClosed s \<longrightarrow> length (workers s) = numWorkers cfg \<and> all_exited (workers s))
    \<and> (mainpc s = MDone \<longrightarrow> resultsClosed s \<and> results s = [] \<and> processed s = collected s)
    \<and> (mainpc s = MRange \<longrightarrow>
          ((\<exists>s'. main_step cfg s = Step s' \<and> mainpc s' = MDone)
             \<longleftrightarrow> resultsClosed s \<and> results s = [])
          \<and> (main_step cfg s = Blocked \<longleftrightarrow> \<not> resultsClosed s \<and> results s = []))
    \<and> (mainpc s \<noteq> MDone \<longrightarrow> (\<exists>p. \<forall>d. \<exists>s'. pool_step cfg p d s = Step s'))
    \<and> moves cfg sch (pool_init st) \<le> 5 * numWorkers cfg + 8 * numTasks cfg + 8"
proof -
  have inv: "pool_inv cfg st s"
    using assms(1) by (rule run_pool_init_inv)
  have a: "length (workers s) = numWorkers cfg \<and> all_exited (workers s)" if "resultsClosed s"
    using inv that by (rule closed_after_workers)
  have b: "resultsClosed s \<and> results s = [] \<and> processed s = collected s" if "mainpc s = MDone"
    using done_all_exited [OF inv that] done_processed [OF inv that] by simp
  have c: "mainpc s = MRange \<longrightarrow>
          ((\<exists>s'. main_step cfg s = Step s' \<and> mainpc s' = MDone)
             \<longleftrightarrow> resultsClosed s \<and> results s = [])
          \<and> (main_step cfg s = Blocked \<longleftrightarrow> \<not> resultsClosed s \<and> results s = [])"
    using main_leaves_loop [of s cfg] by blast
  have d: "\<exists>p. \<forall>d. \<exists>s'. pool_step cfg p d s = Step s'" if "mainpc s \<noteq> MDone"
    using inv valid_startable [OF assms(2)] that by (rule can_move)
  have e: "moves cfg sch (pool_init st) \<le> 5 * numWorkers cfg + 8 * numTasks cfg + 8"
  proof -
    have "moves cfg sch (pool_init st) \<le> remaining cfg (pool_init st)"
      using pool_inv_init by (rule moves_bound)
    then show ?thesis by (simp add: remaining_init)
  qed
  from a b c d e show ?thesis by blast
qed

theorem C4_closed_after_workers_loop_ends_when_drained_witness:
  "run_pool pool1 (round_robin 28) (pool_init fresh_stats) = Inr pool1_final
   \<and> valid_kind (worker_kind pool1)
   \<and> resultsClosed pool1_final \<and> mainpc pool1_final = MDone
   \<and> length (workers pool1_final) = numWorkers pool1
   \<and> all_exited (workers pool1_final)
   \<and> results pool1_final = []
   \<and> processed pool1_final = collected pool1_final"
proof -
  have v: "valid_kind (worker_kind pool1)"
    by (simp add: pool1_def valid_kind_def)
  have f: "resultsClosed pool1_final" "mainpc pool1_final = MDone"
    by (simp_all add: pool1_final_def pool_done_def)
  from C4_closed_after_workers_loop_ends_when_drained [OF pool1_run v] f
  have "length (workers pool1_final) = numWorkers pool1 \<and> all_exited (workers pool1_final)
      \<and> results pool1_final = [] \<and> processed pool1_final = collected pool1_final"
    by blast
  with pool1_run v f show ?thesis by blast
qed

text \<open>
  C2, as amended: after a pool with at least one worker has run to completion on
  \<open>numTasks\<close> tasks, \<open>tasksProcessed\<close> is its value when the pool started plus
  \<open>numTasks\<close> (in \<open>uint64\<close> arithmetic); it is \<open>numTasks\<close> when the pool started
  with the counter at zero, as the first pool of \<open>main\<close> does. The statistics object is
  not owned by one pool: \<open>main\<close> hands the same object to all its pools (lines 130,
  170 and 205).
\<close>

theorem C2_count_is_start_plus_tasks:
  assumes "run_pool cfg sch (pool_init st) = Inr s" and "mainpc s = MDone"
    and "1 \<le> numWorkers cfg"
  shows "tasksProcessed (stats s) = tasksProcessed st + of_nat (numTasks cfg)
    \<and> (tasksProcessed st = 0 \<and> numTasks cfg < 2 ^ 64
          \<longrightarrow> unat (tasksProcessed (stats s)) = numTasks cfg)"
proof -
  have inv: "pool_inv cfg st s"
    using assms(1) by (rule run_pool_init_inv)
  have c: "tasksProcessed (stats s) = tasksProcessed st + of_nat (numTasks cfg)"
    using inv assms(2,3) by (rule done_count)
  have "unat (tasksProcessed (stats s)) = numTasks cfg"
    if "tasksProcessed st = 0" "numTasks cfg < 2 ^ 64"
    using c that by (simp add: unat_of_nat)
  with c show ?thesis by blast
qed

theorem C2_count_is_start_plus_tasks_witness:
  "run_pool pool1 (round_robin 28) (pool_init fresh_stats) = Inr pool1_final
   \<and> mainpc pool1_final = MDone \<and> 1 \<le> numWorkers pool1
   \<and> tasksProcessed fresh_stats = 0 \<and> numTasks pool1 < 2 ^ 64
   \<and> unat (tasksProcessed (stats pool1_final)) = numTasks pool1"
proof -
  have f: "mainpc pool1_final = MDone" "1 \<le> numWorkers pool1"
    "tasksProcessed fresh_stats = 0" "numTasks pool1 < 2 ^ 64"
    by (simp_all add: pool1_final_def pool_done_def pool1_def fresh_stats_def)
  from C2_count_is_start_plus_tasks [OF pool1_run f(1,2)] f(3,4)
  have "unat (tasksProcessed (stats pool1_final)) = numTasks pool1"
    by blast
  with pool1_run f show ?thesis by blast
qed

text \<open>
  C2 as stated fails on \<open>main\<close>'s second pool: it starts with the statistics the first
  pool left behind, and after its ten tasks the counter reads twenty.
\<close>

theorem C2_second_pool_counts_twenty:
  "run_pool pool1 (round_robin 28) (pool_init fresh_stats) = Inr pool1_final
   \<and> run_pool pool2 (round_robin 32) (pool_init (stats pool1_final)) = Inr pool2_final
   \<and> mainpc pool2_final = MDone
   \<and> numTasks pool2 = 10
   \<and> unat (tasksProcessed (stats pool2_final)) = 20
   \<and> unat (tasksProcessed (stats pool2_final)) \<noteq> numTasks pool2"
  using pool1_run pool2_run
  by (simp add: pool2_final_def pool_done_def pool2_def)

text \<open>
  C8: once \<open>main\<close> has left its loop over the results, whatever the goroutines of the
  pool still do, the two counters stay as they are: a snapshot taken later equals the
  snapshot taken first.
\<close>

theorem C8_snapshot_stable_after_completion:
  assumes "run_pool cfg sch (pool_init st) = Inr s" and "mainpc s = MDone"
  shows "\<exists>s'. run_pool cfg sch' s = Inr s' \<and> snapshot s' = snapshot s"
proof -
  have inv: "pool_inv cfg st s"
    using assms(1) by (rule run_pool_init_inv)
  from done_run [OF inv assms(2), of sch'] show ?thesis
    by (auto simp: snapshot_def)
qed

theorem C8_snapshot_stable_after_completion_witness:
  "run_pool pool1 (round_robin 28) (pool_init fresh_stats) = Inr pool1_final
   \<and> mainpc pool1_final = MDone
   \<and> (\<exists>s'. run_pool pool1 (round_robin 2) pool1_final = Inr s'
          \<and> snapshot s' = snapshot pool1_final)
   \<and> snapshot pool1_final = (10, 440)"
proof -
  have f: "mainpc pool1_final = MDone"
    by (simp add: pool1_final_def pool_done_def)
  have g: "snapshot pool1_final = (10, 440)"
    by (simp add: snapshot_def pool1_final_def pool_done_def)
  from C8_snapshot_stable_after_completion [OF pool1_run f, of "round_robin 2"] pool1_run f g
  show ?thesis by blast
qed

text \<open>
  C7: every step of every goroutine leaves the statistics alone, or adds one to
  \<open>tasksProcessed\<close>, or adds to \<open>totalTime\<close> an elapsed time that is not negative.
  So between any two states of a run neither counter goes down, and \<open>totalTime\<close>,
  not negative at the start, stays so. The two counters are 64 bits wide: this is
  for runs in which they do not wrap around, that is fewer than \<open>2 ^ 64\<close> steps on
  top of the count so far and less than \<open>2 ^ 63\<close> nanoseconds (292 years) of elapsed
  time in all.
\<close>

theorem C7_counters_never_decrease:
  assumes "run_pool cfg sch s = Inr s'"
    and "unat (tasksProcessed (stats s)) + length sch < 2 ^ 64"
    and "0 \<le> sint (totalTime (stats s))"
    and "sint (totalTime (stats s)) + clock_total sch < 2 ^ 63"
  shows "unat (tasksProcessed (stats s)) \<le> unat (tasksProcessed (stats s'))
    \<and> sint (totalTime (stats s)) \<le> sint (totalTime (stats s'))
    \<and> 0 \<le> sint (totalTime (stats s'))
    \<and> (\<forall>p d s1 s2. pool_step cfg p d s1 = Step s2 \<longrightarrow>
          (stats s2 = stats s1
           \<or> stats s2 = (stats s1)\<lparr>tasksProcessed := tasksProcessed (stats s1) + 1\<rparr>
           \<or> stats s2 = (stats s1)\<lparr>totalTime := totalTime (stats s1) + elapsed d\<rparr>)
          \<and> 0 \<le> sint (elapsed d))"
proof -
  from run_stats_bounds [OF assms]
  have a: "unat (tasksProcessed (stats s)) \<le> unat (tasksProcessed (stats s'))"
    and b: "sint (totalTime (stats s)) \<le> sint (totalTime (stats s'))"
    by simp_all
  from b assms(3) have c: "0 \<le> sint (totalTime (stats s'))" by simp
  have d: "0 \<le> sint (elapsed d)" for d
    by (simp add: sint_elapsed)
  from a b c d step_stats show ?thesis by blast
qed

theorem C7_counters_never_decrease_witness:
  "run_pool pool1 (round_robin 28) (pool_init fresh_stats) = Inr pool1_final
   \<and> unat (tasksProcessed (stats (pool_init fresh_stats))) + length (round_robin 28) < 2 ^ 64
   \<and> 0 \<le> sint (totalTime (stats (pool_init fresh_stats)))
   \<and> sint (totalTime (stats (pool_init fresh_stats))) + clock_total (round_robin 28) < 2 ^ 63
   \<and> unat (tasksProcessed (stats (pool_init fresh_stats))) \<le> unat (tasksProcessed (stats pool1_final))
   \<and> sint (totalTime (stats (pool_init fresh_stats))) \<le> sint (totalTime (stats pool1_final))
   \<and> 0 \<le> sint (totalTime (stats pool1_final))"
proof -
  have a: "unat (tasksProcessed (stats (pool_init fresh_stats))) + length (round_robin 28) < 2 ^ 64"
    by (simp add: round_robin_28 pool_init_def fresh_stats_def)
  have b: "0 \<le> sint (totalTime (stats (pool_init fresh_stats)))"
    by (simp add: pool_init_def fresh_stats_def)
  have c: "sint (totalTime (stats (pool_init fresh_stats))) + clock_total (round_robin 28) < 2 ^ 63"
    by (simp add: round_robin_28 pool_init_def fresh_stats_def)
  from C7_counters_never_decrease [OF pool1_run a b c] pool1_run a b c show ?thesis
    by blast
qed

text \<open>
  C3, as amended: the program checks neither number and has no configuration error.
  With \<open>numWorkers = 0\<close> the pool starts, never crashes, runs no worker, processes and
  collects nothing, and can always run to completion (\<open>main\<close> leaves its loop with
  zero results). With \<open>rate = 0\<close> and at least one worker, every worker that is
  started panics at its first statement with an integer division by zero (line 88),
  which is the only way such a run ends other than by running on; no task is
  processed or collected before that, and the schedule main, main, worker 0 reaches
  the panic.
\<close>

theorem C3_no_configuration_check:
  "(numWorkers cfg = 0 \<longrightarrow>
      (\<exists>s. run_pool cfg sch (pool_init st) = Inr s
         \<and> workers s = [] \<and> collected s = [] \<and> stats s = st
         \<and> (\<exists>sch' s'. run_pool cfg sch' s = Inr s' \<and> mainpc s' = MDone)))
   \<and> (worker_kind cfg = RateLimited 0 \<and> 1 \<le> numWorkers cfg \<longrightarrow>
        (case run_pool cfg sch (pool_init st) of
           Inl f \<Rightarrow> f = DivideByZero
         | Inr s \<Rightarrow>
             list_all (\<lambda>pc. pc = WTicker) (workers s) \<and> collected s = [] \<and> stats s = st
             \<and> (\<forall>k d. k < length (workers s) \<longrightarrow>
                   worker_step (numTasks cfg) (worker_kind cfg) k d s = Crash DivideByZero))
        \<and> run_pool cfg [(Main, 0), (Main, 0), (Worker 0, 0)] (pool_init st) = Inl DivideByZero)"
proof (intro conjI impI)
  assume w: "numWorkers cfg = 0"
  then have ok: "startable cfg" by (simp add: startable_def)
  have "\<exists>s. run_pool cfg sch (pool_init st) = Inr s \<and> pool_inv cfg st s"
    using ok pool_inv_init by (rule run_pool_safe)
  then obtain s where s: "run_pool cfg sch (pool_init st) = Inr s" "pool_inv cfg st s"
    by blast
  from untouched_run [of cfg st "pool_init st" sch] w s(1) pool_inv_init untouched_init
  have "untouched st s" by simp
  moreover have "workers s = []" using s(2) w by (rule no_workers)
  moreover have "\<exists>sch' s'. run_pool cfg sch' s = Inr s' \<and> mainpc s' = MDone"
    using ok s(2) by (rule can_finish)
  ultimately show "\<exists>s. run_pool cfg sch (pool_init st) = Inr s
         \<and> workers s = [] \<and> collected s = [] \<and> stats s = st
         \<and> (\<exists>sch' s'. run_pool cfg sch' s = Inr s' \<and> mainpc s' = MDone)"
    using s(1) by (auto simp: untouched_def)
next
  assume r: "worker_kind cfg = RateLimited 0 \<and> 1 \<le> numWorkers cfg"
  from untouched_run [of cfg st "pool_init st" sch] r pool_inv_init untouched_init
  have u: "case run_pool cfg sch (pool_init st) of
       Inl f \<Rightarrow> f = DivideByZero \<and> worker_kind cfg = RateLimited 0
     | Inr s' \<Rightarrow> untouched st s' \<and> pool_inv cfg st s'"
    by simp
  show "case run_pool cfg sch (pool_init st) of
           Inl f \<Rightarrow> f = DivideByZero
         | Inr s \<Rightarrow>
             list_all (\<lambda>pc. pc = WTicker) (workers s) \<and> collected s = [] \<and> stats s = st
             \<and> (\<forall>k d. k < length (workers s) \<longrightarrow>
                   worker_step (numTasks cfg) (worker_kind cfg) k d s = Crash DivideByZero)"
  proof (cases "run_pool cfg sch (pool_init st)")
    case (Inl f)
    with u show ?thesis by simp
  next
    case (Inr s)
    with u have un: "untouched st s" by simp
    then have "worker_step (numTasks cfg) (worker_kind cfg) k d s = Crash DivideByZero"
      if "k < length (workers s)" for k d
      using that r ticker_crashes [of k s "numTasks cfg" d]
      by (simp add: untouched_def list_all_length)
    with un Inr show ?thesis by (simp add: untouched_def)
  qed
next
  assume r: "worker_kind cfg = RateLimited 0 \<and> 1 \<le> numWorkers cfg"
  then show "run_pool cfg [(Main, 0), (Main, 0), (Worker 0, 0)] (pool_init st) = Inl DivideByZero"
    using zero_rate_crash [of cfg st] by blast
qed

theorem C3_no_configuration_check_witness:
  "numWorkers no_workers_cfg = 0
   \<and> run_pool no_workers_cfg (round_robin 5) (pool_init fresh_stats) = Inr no_workers_final
   \<and> workers no_workers_final = [] \<and> collected no_workers_final = []
   \<and> stats no_workers_final = fresh_stats
   \<and> worker_kind zero_rate_cfg = RateLimited 0 \<and> 1 \<le> numWorkers zero_rate_cfg
   \<and> run_pool zero_rate_cfg [(Main, 0), (Main, 0), (Worker 0, 0)] (pool_init fresh_stats)
       = Inl DivideByZero"
proof -
  have a: "numWorkers no_workers_cfg = 0"
    by (simp add: no_workers_cfg_def)
  have b: "worker_kind zero_rate_cfg = RateLimited 0 \<and> 1 \<le> numWorkers zero_rate_cfg"
    by (simp add: zero_rate_cfg_def)
  from C3_no_configuration_check [of no_workers_cfg "round_robin 5" fresh_stats] a no_workers_run
  have c: "workers no_workers_final = [] \<and> collected no_workers_final = []
      \<and> stats no_workers_final = fresh_stats"
    by auto
  from C3_no_configuration_check [of zero_rate_cfg "[]" fresh_stats] b
  have d: "run_pool zero_rate_cfg [(Main, 0), (Main, 0), (Worker 0, 0)] (pool_init fresh_stats)
       = Inl DivideByZero"
    by blast
  from a b c d no_workers_run show ?thesis by blast
qed

text \<open>
  C3 as stated fails: with no worker the pool of ten tasks runs to completion without
  any error, four tasks sitting in the channel unprocessed when \<open>main\<close> leaves its loop;
  with a rate of zero three workers are started and the run ends in a panic.
\<close>

theorem C3_zero_workers_no_error_zero_rate_crash:
  "run_pool no_workers_cfg (round_robin 5) (pool_init fresh_stats) = Inr no_workers_final
   \<and> mainpc no_workers_final = MDone
   \<and> length (tasks no_workers_final) = 4
   \<and> run_pool zero_rate_cfg (round_robin 2) (pool_init fresh_stats) = Inl DivideByZero"
  using no_workers_run zero_rate_run
  by (simp add: no_workers_final_def)

text \<open>
  C10: in the dynamic pool, whatever the schedule, the task channel never holds more
  than the five tasks that \<open>main\<close> sends, so the one check \<open>len(dynamicTasks) > 5\<close>
  is false whenever it is made: the goroutine that makes it goes straight to its end,
  never adds to the WaitGroup and never starts a worker, and the pool has its two
  initial workers and no other.
\<close>

theorem C10_scaler_never_adds_a_worker:
  assumes "run_dyn sch (dyn_init st) = Inr s"
  shows "length (tasks s) \<le> 5
    \<and> \<not> length (tasks s) > high_load
    \<and> scaler s \<noteq> Some ScAdd \<and> scaler s \<noteq> Some ScGo
    \<and> (scaler s = Some ScCheck \<longrightarrow> scaler_step s = Step (s\<lparr>scaler := Some ScDone\<rparr>))
    \<and> length (workers s) \<le> initialWorkers
    \<and> (workers_started (dmainpc s) \<longrightarrow> length (workers s) = initialWorkers)"
proof -
  have inv: "dyn_inv s"
    using dyn_inv_init assms by (rule run_dyn_inv)
  have len: "length (tasks s) \<le> 5"
    using inv dsent_le [of s] by (simp add: dyn_inv_def dyn_tasks_def)
  then have chk: "\<not> length (tasks s) > high_load"
    by (simp add: high_load_def)
  then have st: "scaler s = Some ScCheck \<longrightarrow> scaler_step s = Step (s\<lparr>scaler := Some ScDone\<rparr>)"
    by (simp add: scaler_step_def)
  have sc: "scaler s \<noteq> Some ScAdd \<and> scaler s \<noteq> Some ScGo"
    using inv by (simp add: dyn_inv_def)
  have w: "length (workers s) \<le> initialWorkers
    \<and> (workers_started (dmainpc s) \<longrightarrow> length (workers s) = initialWorkers)"
    using inv by (auto simp: dyn_inv_def workers_started_def split: dpc.splits)
  from len chk st sc w show ?thesis by blast
qed

theorem C10_scaler_never_adds_a_worker_witness:
  "run_dyn (replicate 11 (DMain, 0)) (dyn_init (stats pool2_final)) = Inr dyn_backlog
   \<and> length (tasks dyn_backlog) = 5
   \<and> scaler dyn_backlog = Some ScCheck
   \<and> scaler_step dyn_backlog = Step (dyn_backlog\<lparr>scaler := Some ScDone\<rparr>)
   \<and> workers_started (dmainpc dyn_backlog)
   \<and> length (workers dyn_backlog) = initialWorkers"
proof -
  have a: "length (tasks dyn_backlog) = 5" "scaler dyn_backlog = Some ScCheck"
    "workers_started (dmainpc dyn_backlog)"
    by (simp_all add: dyn_backlog_def workers_started_def)
  from C10_scaler_never_adds_a_worker [OF dyn_backlog_run] a
  have "scaler_step dyn_backlog = Step (dyn_backlog\<lparr>scaler := Some ScDone\<rparr>)
      \<and> length (workers dyn_backlog) = initialWorkers"
    by blast
  with dyn_backlog_run a show ?thesis by blast
qed

end
